theory Spec2Isabelle
  imports Main "HOL-Library.Word"
begin

unbundle bit_operations_syntax

section \<open>PNG alpha flattener: data model\<close>

text \<open>
  Shallow embedding of \<^verbatim>\<open>tools/png_flatten.py\<close>. A Python \<^verbatim>\<open>bytes\<close> or
  \<^verbatim>\<open>bytearray\<close> is a list of 8-bit words, since its elements are integers of
  \<^verbatim>\<open>range(256)\<close> by type. Python's unbounded integers are \<open>int\<close>; lengths, offsets and
  the unsigned header fields are \<open>nat\<close>. Every \<^verbatim>\<open>raise\<close> is a branch returning \<open>Inl\<close>.
\<close>

type_synonym byte = "8 word"
type_synonym bytes = "byte list"

text \<open>
  The messages of \<^verbatim>\<open>PNGFormatError\<close>, one constructor per \<^verbatim>\<open>raise\<close> site; the
  numbers a message formats are the constructor's arguments.
\<close>

datatype format_error =
    NotAPNGFile
  | EOFChunkLength
  | EOFChunkType
  | EOFChunkData
  | EOFChunkCRC
  | FirstChunkNotIHDR
  | IHDRInvalidLength
  | Only8BitSupported
  | InterlacedNotSupported
  | UnsupportedCompressionOrFilter
  | NoIDATChunks
  | FailedToDecompressIDAT
  | UnsupportedColorType nat
  | IDATSizeUnexpected nat nat
  | UnsupportedFilterType nat
  | RGBALengthNotDivisibleBy4
  | PLTEMissing
  | PLTELengthNotMultipleOf3
  | UnsupportedIndexedBitDepth nat

text \<open>
  The exceptions the code can raise: its own \<^verbatim>\<open>PNGFormatError\<close>, the \<^verbatim>\<open>EOFError\<close> of
  \<^verbatim>\<open>_read_chunk\<close>, and the interpreter's \<^verbatim>\<open>struct.error\<close>, \<^verbatim>\<open>IndexError\<close>,
  \<^verbatim>\<open>ValueError\<close> (a byte store outside \<^verbatim>\<open>range(256)\<close>) and \<^verbatim>\<open>FileNotFoundError\<close>.
\<close>

datatype error =
    EOFError
  | PNGFormatError format_error
  | StructError
  | IndexError
  | ValueError
  | FileNotFoundError


section \<open>Python primitives the code relies on\<close>

text \<open>Sequencing of computations that may raise: the first exception ends the run.\<close>

definition and_then :: "error + 'a \<Rightarrow> ('a \<Rightarrow> error + 'b) \<Rightarrow> error + 'b" where
  "and_then m f = (case m of Inl e \<Rightarrow> Inl e | Inr x \<Rightarrow> f x)"

text \<open>
  \<^verbatim>\<open>for i in xs: body\<close> over a loop state: the body runs on each element in order and an
  exception leaves the loop.
\<close>

fun for_each :: "'i list \<Rightarrow> ('i \<Rightarrow> 's \<Rightarrow> error + 's) \<Rightarrow> 's \<Rightarrow> error + 's" where
  "for_each [] body s = Inr s"
| "for_each (i # rest) body s =
     (case body i s of Inl e \<Rightarrow> Inl e | Inr s' \<Rightarrow> for_each rest body s')"

text \<open>\<^verbatim>\<open>range(0, n, step)\<close> for a positive step.\<close>

definition range_step :: "nat \<Rightarrow> nat \<Rightarrow> nat list" where
  "range_step n step = map (\<lambda>k. k * step) [0..<(n + step - 1) div step]"

text \<open>\<^verbatim>\<open>xs[i]\<close> for an index \<open>i \<ge> 0\<close>: \<^verbatim>\<open>IndexError\<close> beyond the end.\<close>

definition getitem :: "'a list \<Rightarrow> nat \<Rightarrow> error + 'a" where
  "getitem xs i = (if i < length xs then Inr (xs ! i) else Inl IndexError)"

text \<open>
  \<^verbatim>\<open>buf[i] = v\<close> on a \<^verbatim>\<open>bytearray\<close>: \<^verbatim>\<open>IndexError\<close> beyond the end, \<^verbatim>\<open>ValueError\<close>
  when \<open>v\<close> is not in \<^verbatim>\<open>range(256)\<close>.
\<close>

definition setitem :: "bytes \<Rightarrow> nat \<Rightarrow> int \<Rightarrow> error + bytes" where
  "setitem buf i v =
     (if \<not> i < length buf then Inl IndexError
      else if v < 0 \<or> 255 < v then Inl ValueError
      else Inr (buf[i := word_of_int v]))"

text \<open>\<^verbatim>\<open>buf[i:j] = src\<close>: the slice (clamped to the buffer) is replaced by \<open>src\<close>.\<close>

definition setslice :: "'a list \<Rightarrow> nat \<Rightarrow> nat \<Rightarrow> 'a list \<Rightarrow> 'a list" where
  "setslice buf i j src = take i buf @ src @ drop (max i j) buf"

text \<open>\<^verbatim>\<open>buf[i:j]\<close>.\<close>

definition slice :: "'a list \<Rightarrow> nat \<Rightarrow> nat \<Rightarrow> 'a list" where
  "slice buf i j = take (j - i) (drop i buf)"

text \<open>\<^verbatim>\<open>stream.read(n)\<close>: up to \<open>n\<close> bytes and the rest of the stream.\<close>

definition stream_read :: "bytes \<Rightarrow> nat \<Rightarrow> bytes \<times> bytes" where
  "stream_read stream n = (take n stream, drop n stream)"

text \<open>
  \<^verbatim>\<open>struct.unpack(">I", b)\<close> and \<^verbatim>\<open>struct.pack(">I", n)\<close>: big-endian unsigned 32-bit;
  \<^verbatim>\<open>struct.error\<close> on a buffer that is not 4 bytes, or a number that does not fit.
\<close>

definition unpack_u32 :: "bytes \<Rightarrow> error + nat" where
  "unpack_u32 b =
     (if length b \<noteq> 4 then Inl StructError
      else Inr (foldl (\<lambda>acc x. acc * 256 + unat x) 0 b))"

definition pack_u32 :: "nat \<Rightarrow> error + bytes" where
  "pack_u32 n =
     (if n < 2 ^ 32
      then Inr [of_nat (n div 2 ^ 24), of_nat (n div 2 ^ 16), of_nat (n div 2 ^ 8), of_nat n]
      else Inl StructError)"

text \<open>
  The compression library is an external collaborator, taken as a parameter:
  \<^verbatim>\<open>zlib.decompress\<close> (\<open>None\<close> for \<^verbatim>\<open>zlib.error\<close>), \<^verbatim>\<open>zlib.compress(data, level)\<close> and
  \<^verbatim>\<open>zlib.crc32(data, start)\<close>.
\<close>

record zlib =
  decompress :: "bytes \<Rightarrow> bytes option"
  compress :: "bytes \<Rightarrow> nat \<Rightarrow> bytes"
  crc32 :: "bytes \<Rightarrow> nat \<Rightarrow> nat"

section \<open>Constants\<close>

definition PNG_SIGNATURE :: bytes where
  "PNG_SIGNATURE = [0x89, 0x50, 0x4E, 0x47, 0x0D, 0x0A, 0x1A, 0x0A]"

definition IHDR :: bytes where "IHDR = [0x49, 0x48, 0x44, 0x52]"
definition IDAT :: bytes where "IDAT = [0x49, 0x44, 0x41, 0x54]"
definition PLTE :: bytes where "PLTE = [0x50, 0x4C, 0x54, 0x45]"
definition tRNS :: bytes where "tRNS = [0x74, 0x52, 0x4E, 0x53]"
definition IEND :: bytes where "IEND = [0x49, 0x45, 0x4E, 0x44]"
definition sRGB :: bytes where "sRGB = [0x73, 0x52, 0x47, 0x42]"
definition gAMA :: bytes where "gAMA = [0x67, 0x41, 0x4D, 0x41]"
definition cHRM :: bytes where "cHRM = [0x63, 0x48, 0x52, 0x4D]"

section \<open>Chunk codec\<close>

text \<open>
  \<^verbatim>\<open>_read_chunk\<close>: the stream is the list of bytes not yet read; the result is the chunk
  and the stream after it.
\<close>

definition read_chunk :: "bytes \<Rightarrow> error + ((bytes \<times> bytes) \<times> bytes)" where
  "read_chunk stream =
     (let (length_bytes, s1) = stream_read stream 4 in
      if length_bytes = [] then Inl EOFError
      else if length length_bytes \<noteq> 4 then Inl (PNGFormatError EOFChunkLength)
      else and_then (unpack_u32 length_bytes) (\<lambda>len.
        let (chunk_type, s2) = stream_read s1 4 in
        if length chunk_type \<noteq> 4 then Inl (PNGFormatError EOFChunkType)
        else
          let (data, s3) = stream_read s2 len in
          if length data \<noteq> len then Inl (PNGFormatError EOFChunkData)
          else
            let (crc_bytes, s4) = stream_read s3 4 in
            if length crc_bytes \<noteq> 4 then Inl (PNGFormatError EOFChunkCRC)
            else Inr ((chunk_type, data), s4)))"

text \<open>
  \<^verbatim>\<open>_write_chunk\<close>: \<open>out\<close> is what the stream holds so far; the result is what it holds
  afterwards, also when an exception ends the call part-way.
\<close>

definition write_chunk :: "zlib \<Rightarrow> bytes \<Rightarrow> bytes \<Rightarrow> bytes \<Rightarrow> (error + unit) \<times> bytes" where
  "write_chunk zl out chunk_type data =
     (case pack_u32 (length data) of
        Inl e \<Rightarrow> (Inl e, out)
      | Inr length_bytes \<Rightarrow>
          let out1 = out @ length_bytes;
              out2 = out1 @ chunk_type;
              out3 = out2 @ data;
              crc = crc32 zl chunk_type 0;
              crc' = crc32 zl data crc AND 0xFFFFFFFF
          in (case pack_u32 crc' of
                Inl e \<Rightarrow> (Inl e, out3)
              | Inr crc_bytes \<Rightarrow> (Inr (), out3 @ crc_bytes)))"

section \<open>Paeth predictor\<close>


definition paeth_predictor :: "int \<Rightarrow> int \<Rightarrow> int \<Rightarrow> int" where
  "paeth_predictor a b c =
     (let p = a + b - c;
          pa = \<bar>p - a\<bar>;
          pb = \<bar>p - b\<bar>;
          pc = \<bar>p - c\<bar>
      in if pa \<le> pb \<and> pa \<le> pc then a
         else if pb \<le> pc then b
         else c)"


section \<open>Scanline unfilter\<close>

text \<open>
  The bodies of the four inner loops of \<^verbatim>\<open>_unfilter_scanlines\<close>, one step at index
  \<open>i\<close> on the current row (\<^verbatim>\<open>curr\<close> in the source, \<open>cur\<close> here). The sums are Python integers, masked with \<^verbatim>\<open>& 0xFF\<close> before
  the store.
\<close>

definition left_of :: "bytes \<Rightarrow> nat \<Rightarrow> nat \<Rightarrow> error + int" where
  "left_of row bytes_per_pixel i =
     (if i \<ge> bytes_per_pixel
      then and_then (getitem row (i - bytes_per_pixel)) (\<lambda>v. Inr (uint v))
      else Inr 0)"

definition unfilter_sub_step :: "nat \<Rightarrow> nat \<Rightarrow> bytes \<Rightarrow> error + bytes" where
  "unfilter_sub_step bytes_per_pixel i cur =
     and_then (left_of cur bytes_per_pixel i) (\<lambda>left.
     and_then (getitem cur i) (\<lambda>x.
     setitem cur i ((uint x + left) AND 0xFF)))"

definition unfilter_up_step :: "bytes \<Rightarrow> nat \<Rightarrow> bytes \<Rightarrow> error + bytes" where
  "unfilter_up_step prev_row i cur =
     and_then (getitem prev_row i) (\<lambda>up.
     and_then (getitem cur i) (\<lambda>x.
     setitem cur i ((uint x + uint up) AND 0xFF)))"

definition unfilter_average_step :: "nat \<Rightarrow> bytes \<Rightarrow> nat \<Rightarrow> bytes \<Rightarrow> error + bytes" where
  "unfilter_average_step bytes_per_pixel prev_row i cur =
     and_then (left_of cur bytes_per_pixel i) (\<lambda>left.
     and_then (getitem prev_row i) (\<lambda>up.
     and_then (getitem cur i) (\<lambda>x.
     setitem cur i ((uint x + ((left + uint up) div 2)) AND 0xFF))))"

definition unfilter_paeth_step :: "nat \<Rightarrow> bytes \<Rightarrow> nat \<Rightarrow> bytes \<Rightarrow> error + bytes" where
  "unfilter_paeth_step bytes_per_pixel prev_row i cur =
     and_then (left_of cur bytes_per_pixel i) (\<lambda>left.
     and_then (getitem prev_row i) (\<lambda>up.
     and_then (left_of prev_row bytes_per_pixel i) (\<lambda>up_left.
     and_then (getitem cur i) (\<lambda>x.
     setitem cur i ((uint x + paeth_predictor left (uint up) up_left) AND 0xFF)))))"

text \<open>The dispatch on the filter type of one scanline.\<close>

definition unfilter_row :: "nat \<Rightarrow> nat \<Rightarrow> nat \<Rightarrow> bytes \<Rightarrow> bytes \<Rightarrow> error + bytes" where
  "unfilter_row filter_type row_size bytes_per_pixel prev_row cur =
     (if filter_type = 0 then Inr cur
      else if filter_type = 1 then
        for_each [0..<row_size] (unfilter_sub_step bytes_per_pixel) cur
      else if filter_type = 2 then
        for_each [0..<row_size] (unfilter_up_step prev_row) cur
      else if filter_type = 3 then
        for_each [0..<row_size] (unfilter_average_step bytes_per_pixel prev_row) cur
      else if filter_type = 4 then
        for_each [0..<row_size] (unfilter_paeth_step bytes_per_pixel prev_row) cur
      else Inl (PNGFormatError (UnsupportedFilterType filter_type)))"

text \<open>The state of the loop over the scanlines, and its body for scanline \<open>y\<close>.\<close>

record unfilter_state =
  recon :: bytes
  prev_row :: bytes
  offset :: nat

definition unfilter_scanline :: "bytes \<Rightarrow> nat \<Rightarrow> nat \<Rightarrow> nat \<Rightarrow> unfilter_state \<Rightarrow> error + unfilter_state" where
  "unfilter_scanline raw row_size bytes_per_pixel y st =
     and_then (getitem raw (offset st)) (\<lambda>filter_type.
       let offset1 = offset st + 1;
           cur = slice raw offset1 (offset1 + row_size);
           offset2 = offset1 + row_size
       in and_then (unfilter_row (unat filter_type) row_size bytes_per_pixel (prev_row st) cur) (\<lambda>cur'.
            let start = y * row_size
            in Inr \<lparr>recon = setslice (recon st) start (start + row_size) cur',
                    prev_row = cur',
                    offset = offset2\<rparr>))"

definition unfilter_scanlines :: "bytes \<Rightarrow> nat \<Rightarrow> nat \<Rightarrow> nat \<Rightarrow> error + bytes" where
  "unfilter_scanlines raw height scanline_length bytes_per_pixel =
     (let row_size = scanline_length;
          expected_size = height * (1 + row_size)
      in and_then
           (if length raw \<noteq> expected_size
            then (if length raw < expected_size
                  then Inl (PNGFormatError (IDATSizeUnexpected (length raw) expected_size))
                  else Inr (take expected_size raw))
            else Inr raw)
           (\<lambda>raw'.
              and_then
                (for_each [0..<height] (unfilter_scanline raw' row_size bytes_per_pixel)
                   \<lparr>recon = replicate (height * row_size) 0,
                    prev_row = replicate row_size 0,
                    offset = 0\<rparr>)
                (\<lambda>st. Inr (recon st))))"

section \<open>Compositing truecolor with alpha over white\<close>

text \<open>The body of the loop of \<^verbatim>\<open>_flatten_rgba_over_white\<close>; the state is \<open>(out, j)\<close>.\<close>

definition flatten_rgba_pixel :: "bytes \<Rightarrow> nat \<Rightarrow> bytes \<times> nat \<Rightarrow> error + bytes \<times> nat" where
  "flatten_rgba_pixel rgba_bytes i st =
     (let (out, j) = st in
      and_then (getitem rgba_bytes i) (\<lambda>r.
      and_then (getitem rgba_bytes (i + 1)) (\<lambda>g.
      and_then (getitem rgba_bytes (i + 2)) (\<lambda>b.
      and_then (getitem rgba_bytes (i + 3)) (\<lambda>a.
        let inv_a = 255 - uint a in
        and_then (setitem out j ((uint r * uint a + 255 * inv_a) div 255)) (\<lambda>out1.
        and_then (setitem out1 (j + 1) ((uint g * uint a + 255 * inv_a) div 255)) (\<lambda>out2.
        and_then (setitem out2 (j + 2) ((uint b * uint a + 255 * inv_a) div 255)) (\<lambda>out3.
        Inr (out3, j + 3)))))))))"

definition flatten_rgba_over_white :: "bytes \<Rightarrow> error + bytes" where
  "flatten_rgba_over_white rgba_bytes =
     (if length rgba_bytes mod 4 \<noteq> 0 then Inl (PNGFormatError RGBALengthNotDivisibleBy4)
      else and_then
             (for_each (range_step (length rgba_bytes) 4) (flatten_rgba_pixel rgba_bytes)
                (replicate ((length rgba_bytes div 4) * 3) 0, 0))
             (\<lambda>st. Inr (fst st)))"

section \<open>Expanding indexed colour through the palette\<close>

text \<open>
  The indexed-colour branch of \<^verbatim>\<open>flatten_png_alpha_to_white\<close>: the palette as a list of
  triples, the alpha table (255 where \<^verbatim>\<open>tRNS\<close> has no entry), the nested helper
  \<^verbatim>\<open>get_index_from_row\<close> and the loops over rows and pixels.
\<close>

definition build_palette :: "bytes \<Rightarrow> error + (byte \<times> byte \<times> byte) list" where
  "build_palette plte_data =
     for_each (range_step (length plte_data) 3)
       (\<lambda>i palette.
          and_then (getitem plte_data i) (\<lambda>r.
          and_then (getitem plte_data (i + 1)) (\<lambda>g.
          and_then (getitem plte_data (i + 2)) (\<lambda>b.
          Inr (palette @ [(r, g, b)])))))
       []"

definition build_alpha :: "nat \<Rightarrow> bytes option \<Rightarrow> error + bytes" where
  "build_alpha num_palette trns_data =
     (let alpha = replicate num_palette 255 in
      case trns_data of
        None \<Rightarrow> Inr alpha
      | Some t \<Rightarrow>
          for_each [0..<min num_palette (length t)]
            (\<lambda>i alpha.
               and_then (getitem t i) (\<lambda>v.
               if i < length alpha then Inr (alpha[i := v]) else Inl IndexError))
            alpha)"

definition get_index_from_row :: "nat \<Rightarrow> bytes \<Rightarrow> nat \<Rightarrow> error + int" where
  "get_index_from_row bit_depth row x =
     (if bit_depth = 8 then
        and_then (getitem row x) (\<lambda>byte. Inr (uint byte))
      else if bit_depth = 4 then
        and_then (getitem row (x div 2)) (\<lambda>byte.
          Inr (if x mod 2 = 0 then drop_bit 4 (uint byte) AND 0x0F else uint byte AND 0x0F))
      else if bit_depth = 2 then
        and_then (getitem row (x div 4)) (\<lambda>byte.
          let shift = 6 - 2 * (x mod 4) in Inr (drop_bit shift (uint byte) AND 0x03))
      else if bit_depth = 1 then
        and_then (getitem row (x div 8)) (\<lambda>byte.
          let shift = 7 - (x mod 8) in Inr (drop_bit shift (uint byte) AND 0x01))
      else Inl (PNGFormatError (UnsupportedIndexedBitDepth bit_depth)))"

definition expand_indexed_pixel ::
  "nat \<Rightarrow> nat \<Rightarrow> (byte \<times> byte \<times> byte) list \<Rightarrow> bytes \<Rightarrow> bytes \<Rightarrow> nat \<Rightarrow> bytes \<times> nat
     \<Rightarrow> error + bytes \<times> nat" where
  "expand_indexed_pixel bit_depth num_palette palette alpha row x st =
     (let (rgb, out_off) = st in
      and_then (get_index_from_row bit_depth row x) (\<lambda>idx.
      and_then
        (if idx \<ge> int num_palette then Inr (0, 0, 0, 255)
         else and_then (getitem palette (nat idx)) (\<lambda>(r, g, b).
              and_then (getitem alpha (nat idx)) (\<lambda>a.
              Inr (uint r, uint g, uint b, uint a))))
        (\<lambda>(r, g, b, a).
           let inv_a = 255 - a in
           and_then (setitem rgb out_off ((r * a + 255 * inv_a) div 255)) (\<lambda>rgb1.
           and_then (setitem rgb1 (out_off + 1) ((g * a + 255 * inv_a) div 255)) (\<lambda>rgb2.
           and_then (setitem rgb2 (out_off + 2) ((b * a + 255 * inv_a) div 255)) (\<lambda>rgb3.
           Inr (rgb3, out_off + 3)))))))"

definition expand_indexed_row ::
  "nat \<Rightarrow> nat \<Rightarrow> nat \<Rightarrow> bytes \<Rightarrow> nat \<Rightarrow> (byte \<times> byte \<times> byte) list \<Rightarrow> bytes \<Rightarrow> nat
     \<Rightarrow> bytes \<times> nat \<Rightarrow> error + bytes \<times> nat" where
  "expand_indexed_row bit_depth width row_len recon_bytes num_palette palette alpha y st =
     (let row = slice recon_bytes (y * row_len) ((y + 1) * row_len) in
      for_each [0..<width] (expand_indexed_pixel bit_depth num_palette palette alpha row) st)"

definition expand_indexed ::
  "nat \<Rightarrow> nat \<Rightarrow> nat \<Rightarrow> nat \<Rightarrow> bytes \<Rightarrow> bytes option \<Rightarrow> bytes option \<Rightarrow> error + bytes" where
  "expand_indexed bit_depth width height scanline_len recon_bytes plte_data trns_data =
     (case plte_data of
        None \<Rightarrow> Inl (PNGFormatError PLTEMissing)
      | Some p \<Rightarrow>
          if length p mod 3 \<noteq> 0 then Inl (PNGFormatError PLTELengthNotMultipleOf3)
          else
            let num_palette = length p div 3 in
            and_then (build_palette p) (\<lambda>palette.
            and_then (build_alpha num_palette trns_data) (\<lambda>alpha.
            and_then
              (for_each [0..<height]
                 (expand_indexed_row bit_depth width scanline_len recon_bytes num_palette palette alpha)
                 (replicate (width * height * 3) 0, 0))
              (\<lambda>st. Inr (fst st)))))"

section \<open>Re-encoding the rows with filter type 0\<close>

definition reencode_row :: "bytes \<Rightarrow> nat \<Rightarrow> nat \<Rightarrow> bytes \<times> nat \<Rightarrow> error + bytes \<times> nat" where
  "reencode_row rgb_bytes row_size_rgb y st =
     (let (out_raw, off) = st in
      and_then (setitem out_raw off 0) (\<lambda>out_raw1.
        let off1 = off + 1;
            start = y * row_size_rgb;
            out_raw2 = setslice out_raw1 off1 (off1 + row_size_rgb)
                         (slice rgb_bytes start (start + row_size_rgb))
        in Inr (out_raw2, off1 + row_size_rgb)))"

definition reencode_rows :: "bytes \<Rightarrow> nat \<Rightarrow> nat \<Rightarrow> error + bytes" where
  "reencode_rows rgb_bytes width height =
     (let row_size_rgb = width * 3 in
      and_then
        (for_each [0..<height] (reencode_row rgb_bytes row_size_rgb)
           (replicate (height * (1 + row_size_rgb)) 0, 0))
        (\<lambda>st. Inr (fst st)))"

section \<open>Orchestrator\<close>

text \<open>
  \<^verbatim>\<open>flatten_png_alpha_to_white\<close>, in the order of the source: the signature and the header
  chunk with its checks, the loop collecting the other chunks, the byte geometry of the
  colour type, decompression, unfiltering, expansion and re-encoding, and only then the
  output file.
\<close>

definition read_header :: "bytes \<Rightarrow> error + (nat \<times> nat \<times> nat \<times> nat) \<times> bytes" where
  "read_header f =
     (let (sig, f1) = stream_read f 8 in
      if sig \<noteq> PNG_SIGNATURE then Inl (PNGFormatError NotAPNGFile)
      else and_then (read_chunk f1) (\<lambda>((chunk_type, data), f2).
        if chunk_type \<noteq> IHDR then Inl (PNGFormatError FirstChunkNotIHDR)
        else if length data \<noteq> 13 then Inl (PNGFormatError IHDRInvalidLength)
        else
          and_then (unpack_u32 (slice data 0 4)) (\<lambda>width.
          and_then (unpack_u32 (slice data 4 8)) (\<lambda>height.
            let bit_depth = unat (data ! 8);
                color_type = unat (data ! 9);
                compression = unat (data ! 10);
                filter_method = unat (data ! 11);
                interlace = unat (data ! 12)
            in if bit_depth \<noteq> 8 then Inl (PNGFormatError Only8BitSupported)
               else if interlace \<noteq> 0 then Inl (PNGFormatError InterlacedNotSupported)
               else if compression \<noteq> 0 \<or> filter_method \<noteq> 0
                 then Inl (PNGFormatError UnsupportedCompressionOrFilter)
               else Inr ((width, height, bit_depth, color_type), f2)))))"

record collected =
  idat_parts :: "bytes list"
  ancillary_chunks :: "(bytes \<times> bytes) list"
  plte :: "bytes option"
  trns :: "bytes option"

text \<open>
  The \<^verbatim>\<open>while True\<close> loop over the chunks after the header: it ends at the end of the
  stream (\<^verbatim>\<open>EOFError\<close>) or at \<^verbatim>\<open>IEND\<close>; every chunk read shortens the stream.
\<close>

function read_chunks :: "bytes \<Rightarrow> collected \<Rightarrow> error + collected" where
  "read_chunks f acc =
     (case read_chunk f of
        Inl EOFError \<Rightarrow> Inr acc
      | Inl e \<Rightarrow> Inl e
      | Inr ((chunk_type, data), f') \<Rightarrow>
          if chunk_type = IDAT then read_chunks f' (acc\<lparr>idat_parts := idat_parts acc @ [data]\<rparr>)
          else if chunk_type = PLTE then read_chunks f' (acc\<lparr>plte := Some data\<rparr>)
          else if chunk_type = tRNS then read_chunks f' (acc\<lparr>trns := Some data\<rparr>)
          else if chunk_type = IEND then Inr acc
          else read_chunks f' (acc\<lparr>ancillary_chunks := ancillary_chunks acc @ [(chunk_type, data)]\<rparr>))"
  by pat_completeness auto
termination
  by (relation "measure (\<lambda>(f, acc). length f)")
     (auto simp: read_chunk_def stream_read_def and_then_def unpack_u32_def Let_def
           split: if_splits sum.splits)

declare read_chunks.simps [simp del]

definition layout :: "nat \<Rightarrow> nat \<Rightarrow> nat \<Rightarrow> error + nat \<times> nat \<times> nat" where
  "layout color_type width bit_depth =
     (if color_type = 6 then Inr (4, 4, width * 4)
      else if color_type = 2 then Inr (3, 3, width * 3)
      else if color_type = 3 then
        Inr (1, max 1 ((bit_depth + 7) div 8), (width * bit_depth + 7) div 8)
      else Inl (PNGFormatError (UnsupportedColorType color_type)))"

text \<open>
  Everything \<^verbatim>\<open>flatten_png_alpha_to_white\<close> does between opening the input and opening
  the output: the result is the width, the height, the pass-through list and the
  compressed pixel data.
\<close>

definition decode_and_reencode ::
  "zlib \<Rightarrow> bytes \<Rightarrow> error + nat \<times> nat \<times> (bytes \<times> bytes) list \<times> bytes" where
  "decode_and_reencode zl f =
     and_then (read_header f) (\<lambda>((width, height, bit_depth, color_type), f2).
     and_then (read_chunks f2 \<lparr>idat_parts = [], ancillary_chunks = [], plte = None, trns = None\<rparr>)
       (\<lambda>cs.
     if idat_parts cs = [] then Inl (PNGFormatError NoIDATChunks)
     else
       let idat_data = concat (idat_parts cs) in
       case decompress zl idat_data of
         None \<Rightarrow> Inl (PNGFormatError FailedToDecompressIDAT)
       | Some decompressed \<Rightarrow>
           and_then (layout color_type width bit_depth) (\<lambda>(channels, bpp, scanline_len).
           and_then (unfilter_scanlines decompressed height scanline_len bpp) (\<lambda>recon_bytes.
           and_then
             (if color_type = 6 then flatten_rgba_over_white recon_bytes
              else if color_type = 2 then Inr recon_bytes
              else expand_indexed bit_depth width height scanline_len recon_bytes (plte cs) (trns cs))
             (\<lambda>rgb_bytes.
           and_then (reencode_rows rgb_bytes width height) (\<lambda>out_raw.
           Inr (width, height, ancillary_chunks cs, compress zl out_raw 9)))))))"

text \<open>Writing the output stream; a failed write leaves what was written before it.\<close>

definition then_write ::
  "(error + unit) \<times> bytes \<Rightarrow> (bytes \<Rightarrow> (error + unit) \<times> bytes) \<Rightarrow> (error + unit) \<times> bytes" where
  "then_write r next_write = (case r of (Inl e, out) \<Rightarrow> (Inl e, out) | (Inr u, out) \<Rightarrow> next_write out)"

fun write_ancillary :: "zlib \<Rightarrow> (bytes \<times> bytes) list \<Rightarrow> bytes \<Rightarrow> (error + unit) \<times> bytes" where
  "write_ancillary zl [] out = (Inr (), out)"
| "write_ancillary zl ((ctype, cdata) # rest) out =
     (if ctype \<in> {sRGB, gAMA, cHRM}
      then then_write (write_chunk zl out ctype cdata) (write_ancillary zl rest)
      else write_ancillary zl rest out)"

definition write_png ::
  "zlib \<Rightarrow> nat \<Rightarrow> nat \<Rightarrow> (bytes \<times> bytes) list \<Rightarrow> bytes \<Rightarrow> (error + unit) \<times> bytes" where
  "write_png zl width height ancillary compressed =
     (let out0 = [] @ PNG_SIGNATURE in
      case and_then (pack_u32 width) (\<lambda>w.
           and_then (pack_u32 height) (\<lambda>h. Inr (w @ h @ [8, 2, 0, 0, 0]))) of
        Inl e \<Rightarrow> (Inl e, out0)
      | Inr new_ihdr \<Rightarrow>
          then_write (write_chunk zl out0 IHDR new_ihdr) (\<lambda>out1.
          then_write (write_ancillary zl ancillary out1) (\<lambda>out2.
          then_write (write_chunk zl out2 IDAT compressed) (\<lambda>out3.
          write_chunk zl out3 IEND []))))"

text \<open>
  The files the run can see, by path, and the paths opened for writing so far. Opening
  with \<^verbatim>\<open>'wb'\<close> creates or empties the file.
\<close>

record world =
  files :: "string \<Rightarrow> bytes option"
  opened_for_writing :: "string list"

definition flatten_png_alpha_to_white ::
  "zlib \<Rightarrow> world \<Rightarrow> string \<Rightarrow> string option \<Rightarrow> bool \<Rightarrow> (error + string) \<times> world" where
  "flatten_png_alpha_to_white zl w src_path dst_path overwrite =
     (case files w src_path of
        None \<Rightarrow> (Inl FileNotFoundError, w)
      | Some f \<Rightarrow>
          (case decode_and_reencode zl f of
             Inl e \<Rightarrow> (Inl e, w)
           | Inr (width, height, ancillary, compressed) \<Rightarrow>
               let fallback = (if overwrite then src_path else src_path @ ''.flattened.png'');
                   output_path = (case dst_path of
                                    None \<Rightarrow> fallback
                                  | Some p \<Rightarrow> if p = [] then fallback else p);
                   w1 = w\<lparr>files := (files w)(output_path \<mapsto> []),
                          opened_for_writing := opened_for_writing w @ [output_path]\<rparr>;
                   (r, out) = write_png zl width height ancillary compressed;
                   w2 = w1\<lparr>files := (files w1)(output_path \<mapsto> out)\<rparr>
               in (case r of Inl e \<Rightarrow> (Inl e, w2) | Inr u \<Rightarrow> (Inr output_path, w2))))"

section \<open>Reference filter\<close>

text \<open>
  Modelled from the spec: the reference per-row filter of the encoder's side, which the
  source does not contain (it only ever writes filter type 0). It is the inverse the
  spec's section 4.2 implies for each type: the filtered byte is the raw byte minus the
  predictor, modulo 256, where the predictor of Sub is the raw byte one pixel stride to
  the left, of Up the byte above, of Average the floor of the mean of the two, and of
  Paeth the Paeth predictor of left, above and upper left; bytes left of the row are 0.
\<close>

definition ref_predictor :: "nat \<Rightarrow> byte \<Rightarrow> byte \<Rightarrow> byte \<Rightarrow> int" where
  "ref_predictor T left up up_left =
     (if T = 1 then uint left
      else if T = 2 then uint up
      else if T = 3 then (uint left + uint up) div 2
      else if T = 4 then paeth_predictor (uint left) (uint up) (uint up_left)
      else 0)"

definition ref_filter_row :: "nat \<Rightarrow> nat \<Rightarrow> bytes \<Rightarrow> bytes \<Rightarrow> bytes" where
  "ref_filter_row T bpp prev row =
     map (\<lambda>i. word_of_int
                (uint (row ! i)
                 - ref_predictor T (if i \<ge> bpp then row ! (i - bpp) else 0)
                     (prev ! i)
                     (if i \<ge> bpp then prev ! (i - bpp) else 0)))
       [0..<length row]"

section \<open>A recorded collaborator for the examples\<close>

text \<open>
  The answers of zlib 1.2.13 on the inputs the examples below pass to it (three
  compressed streams, two buffers compressed at level 9, and the checksums of the chunks
  written); on any other input the value is arbitrary. The general theorems hold for
  every collaborator; this one only makes the examples closed terms.
\<close>

definition zlib_recorded :: zlib where
  "zlib_recorded =
     \<lparr>decompress = (\<lambda>d.
        if d = [120, 218, 99, 56, 145, 98, 212, 0, 0, 5, 53, 1, 223] then Some [0, 200, 100, 50, 128]
        else if d = [120, 218, 99, 96, 96, 4, 0, 0, 4, 0, 2] then Some [0, 0, 1]
        else if d = [120, 218, 99, 96, 0, 0, 0, 2, 0, 1] then Some [0, 0]
        else None),
      compress = (\<lambda>d level.
        if level = 9 \<and> d = [0, 227, 177, 152]
          then [120, 218, 99, 120, 188, 113, 6, 0, 4, 167, 2, 45]
        else if level = 9 \<and> d = [0, 227, 177, 152, 10, 20, 30]
          then [120, 218, 99, 120, 188, 113, 6, 151, 136, 28, 0, 11, 146, 2, 105]
        else []),
      crc32 = (\<lambda>d start.
        if start = 0 \<and> d = [73, 72, 68, 82] then 2829168138
        else if start = 0 \<and> d = [103, 65, 77, 65] then 3001136927
        else if start = 0 \<and> d = [73, 68, 65, 84] then 900662814
        else if start = 0 \<and> d = [73, 69, 78, 68] then 2923585666
        else if start = 2923585666 \<and> d = [] then 2923585666
        else if start = 2829168138 \<and> d = [0, 0, 0, 1, 0, 0, 0, 1, 8, 2, 0, 0, 0] then 2423739358
        else if start = 2829168138 \<and> d = [0, 0, 0, 2, 0, 0, 0, 1, 8, 2, 0, 0, 0] then 2067851485
        else if start = 3001136927 \<and> d = [0, 0, 177, 143] then 201089285
        else if start = 900662814 \<and> d = [120, 218, 99, 120, 188, 113, 6, 0, 4, 167, 2, 45]
          then 3439486635
        else if start = 900662814
                \<and> d = [120, 218, 99, 120, 188, 113, 6, 151, 136, 28, 0, 11, 146, 2, 105]
          then 3933039849
        else 0)\<rparr>"

section \<open>Example files\<close>

text \<open>
  Files for the examples, byte for byte. \<open>png_rgba\<close> is a 1 by 1 truecolour-with-alpha
  image of the pixel (200, 100, 50, 128) with a \<^verbatim>\<open>gAMA\<close> and a \<^verbatim>\<open>tEXt\<close> chunk, and
  \<open>png_rgba_flattened\<close> what the program writes for it; \<open>png_truncated\<close> has the same
  header and then a chunk whose length field claims 255 bytes where 3 follow;
  \<open>png_indexed4\<close> is a 1 by 1 indexed image of bit depth 4; \<open>png_indexed8\<close> is a
  2 by 1 indexed image of bit depth 8 with a two-entry palette and a one-entry
  transparency table, and \<open>png_indexed8_flattened\<close> what the program writes for it.
\<close>

definition png_rgba :: bytes where
  "png_rgba =
     [137, 80, 78, 71, 13, 10, 26, 10, 0, 0, 0, 13, 73, 72, 68, 82, 0, 0, 0, 1, 0, 0,
      0, 1, 8, 6, 0, 0, 0, 31, 21, 196, 137, 0, 0, 0, 4, 103, 65, 77, 65, 0, 0, 177,
      143, 11, 252, 97, 5, 0, 0, 0, 10, 116, 69, 88, 116, 67, 111, 109, 109, 101, 110,
      116, 0, 104, 105, 162, 162, 88, 102, 0, 0, 0, 13, 73, 68, 65, 84, 120, 218, 99,
      56, 145, 98, 212, 0, 0, 5, 53, 1, 223, 172, 60, 241, 203, 0, 0, 0, 0, 73, 69, 78,
      68, 174, 66, 96, 130]"

definition png_rgba_flattened :: bytes where
  "png_rgba_flattened =
     [137, 80, 78, 71, 13, 10, 26, 10, 0, 0, 0, 13, 73, 72, 68, 82, 0, 0, 0, 1, 0, 0,
      0, 1, 8, 2, 0, 0, 0, 144, 119, 83, 222, 0, 0, 0, 4, 103, 65, 77, 65, 0, 0, 177,
      143, 11, 252, 97, 5, 0, 0, 0, 12, 73, 68, 65, 84, 120, 218, 99, 120, 188, 113, 6,
      0, 4, 167, 2, 45, 205, 2, 102, 171, 0, 0, 0, 0, 73, 69, 78, 68, 174, 66, 96, 130]"

definition png_truncated :: bytes where
  "png_truncated =
     [137, 80, 78, 71, 13, 10, 26, 10, 0, 0, 0, 13, 73, 72, 68, 82, 0, 0, 0, 1, 0, 0,
      0, 1, 8, 6, 0, 0, 0, 31, 21, 196, 137, 0, 0, 0, 255, 73, 68, 65, 84, 120, 218, 99]"

definition png_indexed4 :: bytes where
  "png_indexed4 =
     [137, 80, 78, 71, 13, 10, 26, 10, 0, 0, 0, 13, 73, 72, 68, 82, 0, 0, 0, 1, 0, 0,
      0, 1, 4, 3, 0, 0, 0, 237, 59, 217, 186, 0, 0, 0, 3, 80, 76, 84, 69, 200, 100, 50,
      241, 128, 5, 1, 0, 0, 0, 10, 73, 68, 65, 84, 120, 218, 99, 96, 0, 0, 0, 2, 0, 1,
      229, 39, 222, 252, 0, 0, 0, 0, 73, 69, 78, 68, 174, 66, 96, 130]"

definition png_indexed8 :: bytes where
  "png_indexed8 =
     [137, 80, 78, 71, 13, 10, 26, 10, 0, 0, 0, 13, 73, 72, 68, 82, 0, 0, 0, 2, 0, 0,
      0, 1, 8, 3, 0, 0, 0, 195, 252, 143, 184, 0, 0, 0, 6, 80, 76, 84, 69, 200, 100,
      50, 10, 20, 30, 183, 122, 171, 81, 0, 0, 0, 1, 116, 82, 78, 83, 128, 173, 94, 91,
      70, 0, 0, 0, 11, 73, 68, 65, 84, 120, 218, 99, 96, 96, 4, 0, 0, 4, 0, 2, 44, 222,
      72, 173, 0, 0, 0, 0, 73, 69, 78, 68, 174, 66, 96, 130]"

definition png_indexed8_flattened :: bytes where
  "png_indexed8_flattened =
     [137, 80, 78, 71, 13, 10, 26, 10, 0, 0, 0, 13, 73, 72, 68, 82, 0, 0, 0, 2, 0, 0,
      0, 1, 8, 2, 0, 0, 0, 123, 64, 232, 221, 0, 0, 0, 15, 73, 68, 65, 84, 120, 218,
      99, 120, 188, 113, 6, 151, 136, 28, 0, 11, 146, 2, 105, 234, 109, 108, 233, 0, 0,
      0, 0, 73, 69, 78, 68, 174, 66, 96, 130]"

text \<open>A world holding one file, \<^verbatim>\<open>in.png\<close>, and no file opened for writing yet.\<close>

definition world_of :: "bytes \<Rightarrow> world" where
  "world_of f = \<lparr>files = [''in.png'' \<mapsto> f], opened_for_writing = []\<rparr>"

section \<open>Auxiliary notions for the statements\<close>

text \<open>
  The serialised form of a chunk, to state what the output holds: the big-endian length
  of the payload, the type, the payload and the big-endian checksum of type and payload.
\<close>

definition be32 :: "nat \<Rightarrow> bytes" where
  "be32 n = [of_nat (n div 2 ^ 24), of_nat (n div 2 ^ 16), of_nat (n div 2 ^ 8), of_nat n]"

definition chunk_bytes :: "zlib \<Rightarrow> bytes \<times> bytes \<Rightarrow> bytes" where
  "chunk_bytes zl c =
     be32 (length (snd c)) @ fst c @ snd c
     @ be32 (crc32 zl (snd c) (crc32 zl (fst c) 0) AND 0xFFFFFFFF)"

text \<open>
  A chunk as it stands in an input stream, with whatever 4 checksum bytes it carries,
  and what the chunk loop does with a chunk that is not \<^verbatim>\<open>IEND\<close>.
\<close>

definition well_formed_chunk :: "bytes \<times> bytes \<times> bytes \<Rightarrow> bool" where
  "well_formed_chunk c =
     (case c of (t, d, crc) \<Rightarrow> length t = 4 \<and> length d < 2 ^ 32 \<and> length crc = 4)"

definition input_chunk_bytes :: "bytes \<times> bytes \<times> bytes \<Rightarrow> bytes" where
  "input_chunk_bytes c = (case c of (t, d, crc) \<Rightarrow> be32 (length d) @ t @ d @ crc)"

definition absorb_chunk :: "collected \<Rightarrow> bytes \<times> bytes \<times> bytes \<Rightarrow> collected" where
  "absorb_chunk acc c =
     (case c of (t, d, crc) \<Rightarrow>
        if t = IDAT then acc\<lparr>idat_parts := idat_parts acc @ [d]\<rparr>
        else if t = PLTE then acc\<lparr>plte := Some d\<rparr>
        else if t = tRNS then acc\<lparr>trns := Some d\<rparr>
        else acc\<lparr>ancillary_chunks := ancillary_chunks acc @ [(t, d)]\<rparr>)"

definition type_and_data :: "bytes \<times> bytes \<times> bytes \<Rightarrow> bytes \<times> bytes" where
  "type_and_data c = (case c of (t, d, crc) \<Rightarrow> (t, d))"

text \<open>The three chunk types written back.\<close>

definition whitelisted :: "bytes \<times> bytes \<Rightarrow> bool" where
  "whitelisted c = (fst c \<in> {sRGB, gAMA, cHRM})"


text \<open>
  The value \<^verbatim>\<open>_flatten_rgba_over_white\<close> stores at position \<open>m\<close> of its output: channel
  \<open>m mod 3\<close> of pixel \<open>m div 3\<close>, composited with that pixel's alpha.
\<close>

definition composited_at :: "bytes \<Rightarrow> nat \<Rightarrow> int" where
  "composited_at rgba m =
     (uint (rgba ! (4 * (m div 3) + m mod 3)) * uint (rgba ! (4 * (m div 3) + 3))
      + 255 * (255 - uint (rgba ! (4 * (m div 3) + 3)))) div 255"

section \<open>Properties of the Paeth predictor\<close>


text \<open>
  C1 (as stated, refuted at its second example): the claim has \<^verbatim>\<open>paeth(5,10,10)\<close> return
  \<open>up = 10\<close>. There \<open>p = 5 + 10 - 10 = 5\<close> is \<open>left\<close> itself, at distance 0, so the
  code returns \<open>left = 5\<close>.
\<close>

theorem paeth_5_10_10_counterexample: "paeth_predictor 5 10 10 \<noteq> 10"
  by (simp add: paeth_predictor_def)

text \<open>
  C1 (amended): with \<open>p = left + up - upLeft\<close>, the predictor returns one of its three
  arguments, at the least distance from \<open>p\<close>; \<open>left\<close> is returned whenever its distance
  is least, \<open>up\<close> whenever its distance is least and smaller than that of \<open>left\<close>, and
  \<open>upLeft\<close> only when it is strictly nearest. In particular \<^verbatim>\<open>paeth(10,10,0)\<close> is
  \<open>left = 10\<close>, \<^verbatim>\<open>paeth(5,10,10)\<close> is \<open>left = 5\<close>, and \<open>up\<close> wins its tie with
  \<open>upLeft\<close> at \<^verbatim>\<open>paeth(3,0,2) = 0\<close>.
\<close>

theorem paeth_predictor_selects_nearest:
  "p = a + b - c \<Longrightarrow>
     paeth_predictor a b c \<in> {a, b, c}
   \<and> \<bar>p - paeth_predictor a b c\<bar> = min \<bar>p - a\<bar> (min \<bar>p - b\<bar> \<bar>p - c\<bar>)
   \<and> (\<bar>p - a\<bar> \<le> \<bar>p - b\<bar> \<and> \<bar>p - a\<bar> \<le> \<bar>p - c\<bar> \<longrightarrow> paeth_predictor a b c = a)
   \<and> (\<bar>p - b\<bar> < \<bar>p - a\<bar> \<and> \<bar>p - b\<bar> \<le> \<bar>p - c\<bar> \<longrightarrow> paeth_predictor a b c = b)
   \<and> (\<bar>p - c\<bar> < \<bar>p - a\<bar> \<and> \<bar>p - c\<bar> < \<bar>p - b\<bar> \<longrightarrow> paeth_predictor a b c = c)
   \<and> paeth_predictor 10 10 0 = 10
   \<and> paeth_predictor 5 10 10 = 5
   \<and> paeth_predictor 3 0 2 = 0"
  unfolding paeth_predictor_def Let_def by auto

theorem paeth_predictor_selects_nearest_witness:
  "paeth_predictor 3 0 2 = 0 \<and> paeth_predictor 7 2 1 = 7 \<and> paeth_predictor 7 3 5 = 5"
  using paeth_predictor_selects_nearest [of 1 3 0 2]
        paeth_predictor_selects_nearest [of 8 7 2 1]
        paeth_predictor_selects_nearest [of 5 7 3 5]
  by simp

section \<open>Facts about the primitives\<close>

lemma and_then_Inr [simp]: "and_then (Inr x) f = f x"
  by (simp add: and_then_def)

lemma and_then_Inl [simp]: "and_then (Inl e) f = Inl e"
  by (simp add: and_then_def)

lemma and_then_eq_Inl: "and_then m f = Inl e \<longleftrightarrow> m = Inl e \<or> (\<exists>x. m = Inr x \<and> f x = Inl e)"
  by (cases m) simp_all

lemma and_then_eq_Inr: "and_then m f = Inr y \<longleftrightarrow> (\<exists>x. m = Inr x \<and> f x = Inr y)"
  by (cases m) simp_all

lemma for_each_append:
  "for_each (xs @ ys) body s = and_then (for_each xs body s) (for_each ys body)"
  by (induction xs arbitrary: s) (auto split: sum.splits)

lemma for_each_map: "for_each (map g xs) body s = for_each xs (\<lambda>i. body (g i)) s"
  by (induction xs arbitrary: s) (auto split: sum.splits)

lemma for_each_error:
  "for_each xs body s = Inl e \<Longrightarrow> \<exists>i \<in> set xs. \<exists>s'. body i s' = Inl e"
  by (induction xs arbitrary: s) (auto split: sum.splits)

lemma for_each_upt_invariant:
  assumes "I j s" and "j \<le> n"
    and "\<And>i s. j \<le> i \<Longrightarrow> i < n \<Longrightarrow> I i s \<Longrightarrow> \<exists>s'. body i s = Inr s' \<and> I (Suc i) s'"
  shows "\<exists>s'. for_each [j..<n] body s = Inr s' \<and> I n s'"
  using assms
proof (induction "n - j" arbitrary: j s)
  case 0
  then show ?case by simp
next
  case (Suc d)
  then have lt: "j < n" by simp
  from Suc.prems(3)[OF le_refl lt Suc.prems(1)] obtain s1 where
    s1: "body j s = Inr s1" "I (Suc j) s1" by blast
  have "\<exists>s'. for_each [Suc j..<n] body s1 = Inr s' \<and> I n s'"
  proof (rule Suc.hyps(1))
    show "d = n - Suc j" using Suc.hyps(2) by simp
    show "I (Suc j) s1" by (rule s1)
    show "Suc j \<le> n" using lt by simp
    show "\<And>i s. Suc j \<le> i \<Longrightarrow> i < n \<Longrightarrow> I i s \<Longrightarrow> \<exists>s'. body i s = Inr s' \<and> I (Suc i) s'"
      using Suc.prems(3) by simp
  qed
  then show ?case using lt s1 by (simp add: upt_conv_Cons)
qed

lemma composite_in_range:
  fixes c a :: int
  assumes "0 \<le> c" "c \<le> 255" "0 \<le> a" "a \<le> 255"
  shows "0 \<le> (c * a + 255 * (255 - a)) div 255 \<and> (c * a + 255 * (255 - a)) div 255 \<le> 255"
proof -
  have "c * a \<le> 255 * a" using assms by (intro mult_right_mono) auto
  then have up: "c * a + 255 * (255 - a) \<le> 255 * 255" by simp
  have "0 \<le> c * a" using assms by simp
  then have lo: "0 \<le> c * a + 255 * (255 - a)" using assms by simp
  have "(c * a + 255 * (255 - a)) div 255 \<le> (255 * 255) div 255"
    using up by (intro zdiv_mono1) simp_all
  moreover have "0 \<le> (c * a + 255 * (255 - a)) div 255"
    using lo by (simp add: pos_imp_zdiv_nonneg_iff)
  ultimately show ?thesis by simp
qed

lemma uint_byte_bounds: "0 \<le> uint (x :: byte) \<and> uint x \<le> 255"
  using uint_lt2p [of x] by simp


lemma setitem_ok:
  "i < length buf \<Longrightarrow> 0 \<le> v \<Longrightarrow> v \<le> 255 \<Longrightarrow> setitem buf i v = Inr (buf[i := word_of_int v])"
  by (simp add: setitem_def)

lemma setitem_not_ValueError:
  "0 \<le> v \<Longrightarrow> v \<le> 255 \<Longrightarrow> setitem buf i v \<noteq> Inl ValueError"
  by (simp add: setitem_def)

lemma getitem_ok: "i < length xs \<Longrightarrow> getitem xs i = Inr (xs ! i)"
  by (simp add: getitem_def)

lemma getitem_error: "getitem xs i = Inl e \<Longrightarrow> e = IndexError"
  by (simp add: getitem_def split: if_splits)

lemma uint_composite:
  fixes c a :: byte
  shows "uint (word_of_int ((uint c * uint a + 255 * (255 - uint a)) div 255) :: byte)
         = (uint c * uint a + 255 * (255 - uint a)) div 255"
proof -
  let ?v = "(uint c * uint a + 255 * (255 - uint a)) div 255"
  have "0 \<le> ?v \<and> ?v \<le> 255"
    using uint_byte_bounds [of c] uint_byte_bounds [of a] by (intro composite_in_range) auto
  then show ?thesis
    by (simp add: uint_word_of_int take_bit_int_eq_self)
qed

section \<open>Facts about the chunk codec\<close>

lemma unat_byte_less: "unat (x :: byte) < 256"
  using unsigned_less [of x] by simp

lemma unpack_u32_4: "unpack_u32 [a, b, c, d] = Inr (((unat a * 256 + unat b) * 256 + unat c) * 256 + unat d)"
  by (simp add: unpack_u32_def)

lemma unpack_u32_ok: "length b = 4 \<Longrightarrow> \<exists>n. unpack_u32 b = Inr n \<and> n < 2 ^ 32"
proof -
  assume "length b = 4"
  then obtain w x y z where b: "b = [w, x, y, z]"
    by (cases b; cases "tl b"; cases "tl (tl b)"; cases "tl (tl (tl b))") auto
  have "unat w < 256" "unat x < 256" "unat y < 256" "unat z < 256"
    using unat_byte_less by simp_all
  then show ?thesis unfolding b unpack_u32_4 by simp
qed

lemma read_chunk_cases:
  "read_chunk s =
     (if s = [] then Inl EOFError
      else if length s < 4 then Inl (PNGFormatError EOFChunkLength)
      else case unpack_u32 (take 4 s) of Inl e \<Rightarrow> Inl e | Inr len \<Rightarrow>
        if length s < 8 then Inl (PNGFormatError EOFChunkType)
        else if length s < 8 + len then Inl (PNGFormatError EOFChunkData)
        else if length s < 12 + len then Inl (PNGFormatError EOFChunkCRC)
        else Inr ((take 4 (drop 4 s), take len (drop 8 s)), drop (12 + len) s))"
proof (cases "length s < 4")
  case True
  then show ?thesis by (auto simp: read_chunk_def stream_read_def)
next
  case False
  then obtain len where len: "unpack_u32 (take 4 s) = Inr len"
    using unpack_u32_ok [of "take 4 s"] by auto
  have ne: "s \<noteq> []" using False by auto
  show ?thesis
    using False ne len
    by (auto simp: read_chunk_def stream_read_def min_def add.commute)
qed

lemma unpack_pack_u32:
  assumes "n < 2 ^ 32"
  shows "\<exists>b. pack_u32 n = Inr b \<and> length b = 4 \<and> unpack_u32 b = Inr n"
proof -
  define a1 where "a1 = n div 256"
  define a2 where "a2 = a1 div 256"
  define a3 where "a3 = a2 div 256"
  define r0 where "r0 = n mod 256"
  define r1 where "r1 = a1 mod 256"
  define r2 where "r2 = a2 mod 256"
  have e: "n = 256 * a1 + r0" "a1 = 256 * a2 + r1" "a2 = 256 * a3 + r2"
    by (simp_all add: a1_def a2_def a3_def r0_def r1_def r2_def)
  have d: "n div 256 = a1" "n div 65536 = a2" "n div 16777216 = a3"
    by (simp_all add: a1_def a2_def a3_def div_mult2_eq)
  have "a3 < 256" using assms unfolding d(3) [symmetric] by simp
  then have m: "a3 mod 256 = a3" by simp
  have "256 * (256 * (256 * a3 + r2) + r1) + r0 = n"
    by (simp only: e(3) [symmetric] e(2) [symmetric] e(1) [symmetric])
  then have "((a3 * 256 + r2) * 256 + r1) * 256 + r0 = n"
    by (simp add: algebra_simps)
  then have F: "((a3 mod 256 * 256 + a2 mod 256) * 256 + a1 mod 256) * 256 + n mod 256 = n"
    by (simp only: m r0_def r1_def r2_def)
  have p: "pack_u32 n = Inr [of_nat a3, of_nat a2, of_nat a1, of_nat n]"
    using assms by (simp add: pack_u32_def d)
  have "unpack_u32 [of_nat a3, of_nat a2, of_nat a1, of_nat n :: byte]
        = Inr (((a3 mod 256 * 256 + a2 mod 256) * 256 + a1 mod 256) * 256 + n mod 256)"
    unfolding unpack_u32_4 by (simp add: unat_of_nat)
  then have "unpack_u32 [of_nat a3, of_nat a2, of_nat a1, of_nat n :: byte] = Inr n"
    by (simp only: F)
  then show ?thesis using p by simp
qed

lemma of_nat_byte_low: "(of_nat (a * 256 + unat x) :: byte) = x"
proof -
  have z: "(256 :: byte) = 0" by simp
  have "(of_nat (a * 256 + unat x) :: byte) = of_nat a * 256 + of_nat (unat x)"
    by (simp only: of_nat_add of_nat_mult of_nat_numeral)
  also have "\<dots> = x" unfolding z by simp
  finally show ?thesis .
qed

lemma pack_unpack_u32:
  assumes "unpack_u32 b = Inr n"
  shows "pack_u32 n = Inr b"
proof -
  from assms have "length b = 4" by (simp add: unpack_u32_def split: if_splits)
  then obtain w x y z where b: "b = [w, x, y, z]"
    by (cases b; cases "tl b"; cases "tl (tl b)"; cases "tl (tl (tl b))") auto
  have lt: "unat w < 256" "unat x < 256" "unat y < 256" "unat z < 256"
    using unat_byte_less by simp_all
  have n: "n = ((unat w * 256 + unat x) * 256 + unat y) * 256 + unat z"
    using assms unfolding b unpack_u32_4 by simp
  have d: "n div 2 ^ 24 = 0 * 256 + unat w" "n div 2 ^ 16 = unat w * 256 + unat x"
    "n div 2 ^ 8 = (unat w * 256 + unat x) * 256 + unat y"
    using lt unfolding n by simp_all
  have lt32: "n < 2 ^ 32" using lt unfolding n by simp
  have "(of_nat (n div 2 ^ 24) :: byte) = w" "(of_nat (n div 2 ^ 16) :: byte) = x"
    "(of_nat (n div 2 ^ 8) :: byte) = y" "(of_nat n :: byte) = z"
    unfolding d unfolding n by (rule of_nat_byte_low)+
  then show ?thesis
    using lt32 unfolding b pack_u32_def by simp
qed


lemma take_drop_split: "take n (drop a s) @ drop (a + n) s = drop a s"
  by (metis append_take_drop_id drop_drop add.commute)

lemma read_chunk_Inr:
  assumes R: "read_chunk s = Inr ((t, d), rest)"
  shows "length t = 4 \<and> unpack_u32 (take 4 s) = Inr (length d)
        \<and> (\<exists>crc. length crc = 4 \<and> s = take 4 s @ t @ d @ crc @ rest)"
proof -
  from R have 4: "4 \<le> length s"
    by (auto simp: read_chunk_cases split: if_splits)
  then obtain len where len: "unpack_u32 (take 4 s) = Inr len"
    using unpack_u32_ok [of "take 4 s"] by auto
  from R len have l: "12 + len \<le> length s" and t: "t = take 4 (drop 4 s)"
    and d: "d = take len (drop 8 s)" and rest: "rest = drop (12 + len) s"
    by (auto simp: read_chunk_cases split: if_splits)
  have ld: "length d = len" using l d by simp
  have lt: "length t = 4" using l t by simp
  let ?crc = "take 4 (drop (8 + len) s)"
  have lc: "length ?crc = 4" using l by simp
  have "?crc @ rest = drop (8 + len) s"
    using take_drop_split [of 4 "8 + len" s] by (simp add: rest add.commute add.left_commute)
  then have "d @ ?crc @ rest = drop 8 s"
    using take_drop_split [of len 8 s] by (simp add: d)
  then have "t @ d @ ?crc @ rest = drop 4 s"
    using take_drop_split [of 4 4 s] by (simp add: t)
  then have "s = take 4 s @ t @ d @ ?crc @ rest" by simp
  then show ?thesis using lt ld len lc by blast
qed

lemma and_mask32_less: "(x :: nat) AND 0xFFFFFFFF < 2 ^ 32"
proof -
  have "(0xFFFFFFFF :: nat) = mask 32" by (simp add: mask_eq_exp_minus_1)
  then have "x AND 0xFFFFFFFF = take_bit 32 x" by (simp only: take_bit_eq_mask)
  then show ?thesis by (simp only: take_bit_nat_less_exp)
qed

lemma pack_u32_length: "pack_u32 n = Inr b \<Longrightarrow> length b = 4"
  by (auto simp: pack_u32_def split: if_splits)

lemma pack_u32_error: "pack_u32 n = Inl e \<Longrightarrow> e = StructError \<and> \<not> n < 2 ^ 32"
  by (auto simp: pack_u32_def split: if_splits)

lemma write_chunk_ok:
  assumes "length d < 2 ^ 32"
  shows "\<exists>lb cb. pack_u32 (length d) = Inr lb \<and> length cb = 4
           \<and> write_chunk zl out t d = (Inr (), out @ lb @ t @ d @ cb)"
proof -
  from unpack_pack_u32 [OF assms] obtain lb where lb: "pack_u32 (length d) = Inr lb" by blast
  from unpack_pack_u32 [OF and_mask32_less [of "crc32 zl d (crc32 zl t 0)"]]
  obtain cb where cb: "pack_u32 (crc32 zl d (crc32 zl t 0) AND 0xFFFFFFFF) = Inr cb" "length cb = 4"
    by blast
  show ?thesis using lb cb by (simp add: write_chunk_def Let_def)
qed

lemma write_chunk_error:
  "write_chunk zl out t d = (Inl e, out') \<Longrightarrow> e = StructError \<and> out' = out \<and> \<not> length d < 2 ^ 32"
proof -
  assume A: "write_chunk zl out t d = (Inl e, out')"
  show ?thesis
  proof (cases "length d < 2 ^ 32")
    case True
    from write_chunk_ok [OF True, of zl out t] A show ?thesis by auto
  next
    case False
    then have "pack_u32 (length d) = Inl StructError" by (simp add: pack_u32_def)
    with A False show ?thesis by (simp add: write_chunk_def)
  qed
qed

lemma read_chunk_frame:
  assumes "unpack_u32 lb = Inr (length d)" "length t = 4" "length cb = 4"
  shows "read_chunk (lb @ t @ d @ cb @ following) = Inr ((t, d), following)"
proof -
  have lb: "length lb = 4" using assms(1) by (simp add: unpack_u32_def split: if_splits)
  then have ne: "lb \<noteq> []" by auto
  show ?thesis
    using assms lb ne by (simp add: read_chunk_cases)
qed

lemma write_then_read:
  assumes "length t = 4" "length d < 2 ^ 32"
  shows "\<exists>c. write_chunk zl out t d = (Inr (), out @ c) \<and> read_chunk (c @ following) = Inr ((t, d), following)"
proof -
  from write_chunk_ok [OF assms(2), of zl out t] obtain lb cb where
    w: "pack_u32 (length d) = Inr lb" "length cb = 4"
       "write_chunk zl out t d = (Inr (), out @ lb @ t @ d @ cb)" by blast
  from unpack_pack_u32 [OF assms(2)] w(1) have "unpack_u32 lb = Inr (length d)" by auto
  from read_chunk_frame [OF this assms(1) w(2), of following] w(3)
  show ?thesis by (intro exI [of _ "lb @ t @ d @ cb"]) simp
qed

section \<open>Compositing over white\<close>

lemma composited_at_range: "0 \<le> composited_at rgba m \<and> composited_at rgba m \<le> 255"
  unfolding composited_at_def
  using uint_byte_bounds by (intro composite_in_range) auto

lemma flatten_rgba_pixel_step:
  assumes len: "length rgba = 4 * n" and k: "k < n"
    and inv: "length out = 3 * n" "\<forall>m < 3 * k. out ! m = word_of_int (composited_at rgba m)"
  shows "\<exists>out'. flatten_rgba_pixel rgba (k * 4) (out, 3 * k) = Inr (out', 3 * Suc k)
           \<and> length out' = 3 * n \<and> (\<forall>m < 3 * Suc k. out' ! m = word_of_int (composited_at rgba m))"
proof -
  have r: "k * 4 < length rgba" "k * 4 + 1 < length rgba" "k * 4 + 2 < length rgba"
    "k * 4 + 3 < length rgba" using len k by auto
  have w: "3 * k < length out" "3 * k + 1 < length out" "3 * k + 2 < length out"
    using inv(1) k by auto
  have dm: "(3 * k) div 3 = k" "(3 * k) mod 3 = 0" "(3 * k + 1) div 3 = k" "(3 * k + 1) mod 3 = 1"
    "(3 * k + 2) div 3 = k" "(3 * k + 2) mod 3 = 2" "4 * k = k * 4" by presburger+
  have p0: "composited_at rgba (3 * k) = (uint (rgba ! (k * 4)) * uint (rgba ! (k * 4 + 3))
              + 255 * (255 - uint (rgba ! (k * 4 + 3)))) div 255"
    unfolding composited_at_def dm by simp
  have p1: "composited_at rgba (3 * k + 1) = (uint (rgba ! (k * 4 + 1)) * uint (rgba ! (k * 4 + 3))
              + 255 * (255 - uint (rgba ! (k * 4 + 3)))) div 255"
    unfolding composited_at_def dm by (rule refl)
  have p2: "composited_at rgba (3 * k + 2) = (uint (rgba ! (k * 4 + 2)) * uint (rgba ! (k * 4 + 3))
              + 255 * (255 - uint (rgba ! (k * 4 + 3)))) div 255"
    unfolding composited_at_def dm by (rule refl)
  let ?o = "out[3 * k := word_of_int (composited_at rgba (3 * k)),
               3 * k + 1 := word_of_int (composited_at rgba (3 * k + 1)),
               3 * k + 2 := word_of_int (composited_at rgba (3 * k + 2))]"
  have step: "flatten_rgba_pixel rgba (k * 4) (out, 3 * k) = Inr (?o, 3 * Suc k)"
    unfolding flatten_rgba_pixel_def Let_def prod.case
    using r w composited_at_range [of rgba "3 * k"] composited_at_range [of rgba "3 * k + 1"] composited_at_range [of rgba "3 * k + 2"]
    by (simp only: getitem_ok and_then_Inr p0 [symmetric] p1 [symmetric] p2 [symmetric])
       (simp add: setitem_ok)
  have "\<forall>m < 3 * Suc k. ?o ! m = word_of_int (composited_at rgba m)"
  proof (intro allI impI)
    fix m assume "m < 3 * Suc k"
    then have "m < 3 * k \<or> m = 3 * k \<or> m = 3 * k + 1 \<or> m = 3 * k + 2" by simp linarith
    then consider "m < 3 * k" | "m = 3 * k" | "m = 3 * k + 1" | "m = 3 * k + 2" by blast
    then show "?o ! m = word_of_int (composited_at rgba m)"
      using inv(2) w by cases (simp_all add: nth_list_update)
  qed
  then show ?thesis using step inv(1) by simp
qed

lemma flatten_rgba_loop:
  assumes len: "length rgba = 4 * n"
  shows "\<exists>out. for_each (range_step (length rgba) 4) (flatten_rgba_pixel rgba)
                  (replicate ((length rgba div 4) * 3) 0, 0) = Inr (out, 3 * n)
           \<and> length out = 3 * n \<and> (\<forall>m < 3 * n. out ! m = word_of_int (composited_at rgba m))"
proof -
  let ?I = "\<lambda>k st. snd st = 3 * k \<and> length (fst st) = 3 * n
              \<and> (\<forall>m < 3 * k. fst st ! m = word_of_int (composited_at rgba m))"
  have "\<exists>s'. for_each [0..<n] (\<lambda>k. flatten_rgba_pixel rgba (k * 4)) (replicate (n * 3) (0::byte), 0) = Inr s'
           \<and> ?I n s'"
  proof (rule for_each_upt_invariant [where I = ?I])
    show "?I 0 (replicate (n * 3) (0::byte), 0)" by simp
    show "0 \<le> n" by simp
    fix i and s :: "bytes \<times> nat" assume "0 \<le> i" "i < n" "?I i s"
    then show "\<exists>s'. flatten_rgba_pixel rgba (i * 4) s = Inr s' \<and> ?I (Suc i) s'"
      using flatten_rgba_pixel_step [OF len, of i "fst s"] by (cases s) auto
  qed
  moreover have "range_step (length rgba) 4 = map (\<lambda>k. k * 4) [0..<n]"
    using len by (simp add: range_step_def)
  ultimately show ?thesis using len by (auto simp: for_each_map)
qed

lemma flatten_rgba_over_white_pixels:
  assumes len: "length rgba = 4 * n"
  shows "\<exists>out. flatten_rgba_over_white rgba = Inr out \<and> length out = 3 * n
           \<and> (\<forall>k < n. \<forall>ch < 3.
                 uint (out ! (3 * k + ch))
                 = (uint (rgba ! (4 * k + ch)) * uint (rgba ! (4 * k + 3))
                    + 255 * (255 - uint (rgba ! (4 * k + 3)))) div 255)"
proof -
  from flatten_rgba_loop [OF len] obtain out where
    o: "for_each (range_step (length rgba) 4) (flatten_rgba_pixel rgba)
                  (replicate ((length rgba div 4) * 3) 0, 0) = Inr (out, 3 * n)"
      "length out = 3 * n" "\<forall>m < 3 * n. out ! m = word_of_int (composited_at rgba m)" by blast
  have res: "flatten_rgba_over_white rgba = Inr out"
    using o(1) len by (simp add: flatten_rgba_over_white_def)
  have "uint (out ! (3 * k + ch))
                 = (uint (rgba ! (4 * k + ch)) * uint (rgba ! (4 * k + 3))
                    + 255 * (255 - uint (rgba ! (4 * k + 3)))) div 255" if "k < n" "ch < 3" for k ch
  proof -
    have "3 * k + ch < 3 * n" using that by simp
    then have "out ! (3 * k + ch) = word_of_int (composited_at rgba (3 * k + ch))" using o(3) by blast
    moreover have "(3 * k + ch) div 3 = k" "(3 * k + ch) mod 3 = ch" using that by presburger+
    ultimately show ?thesis by (simp only: composited_at_def uint_composite)
  qed
  then show ?thesis using res o(2) by blast
qed

lemma setitem_composite_not_ValueError:
  fixes c a :: int
  assumes "0 \<le> c" "c \<le> 255" "0 \<le> a" "a \<le> 255"
  shows "setitem buf i ((c * a + 255 * (255 - a)) div 255) \<noteq> Inl ValueError"
  using composite_in_range [OF assms] by (intro setitem_not_ValueError) auto

lemma get_index_from_row_error:
  "get_index_from_row bd row x = Inl e \<Longrightarrow> e \<noteq> ValueError"
  by (auto simp: get_index_from_row_def and_then_eq_Inl getitem_def Let_def split: if_splits)

lemma store3_not_ValueError:
  assumes "0 \<le> v1 \<and> v1 \<le> 255" "0 \<le> v2 \<and> v2 \<le> 255" "0 \<le> v3 \<and> v3 \<le> 255"
  shows "and_then (setitem buf off v1) (\<lambda>buf1.
         and_then (setitem buf1 (off + 1) v2) (\<lambda>buf2.
         and_then (setitem buf2 (off + 2) v3) (\<lambda>buf3.
         Inr (buf3, off + 3)))) \<noteq> Inl ValueError"
  using assms by (auto simp: and_then_eq_Inl setitem_def split: if_splits)

lemma expand_indexed_pixel_not_ValueError:
  "expand_indexed_pixel bd np pal al row x st \<noteq> Inl ValueError"
proof
  assume A: "expand_indexed_pixel bd np pal al row x st = Inl ValueError"
  obtain rgb off where st: "st = (rgb, off)" by (cases st)
  let ?look = "\<lambda>idx. if idx \<ge> int np then Inr (0, 0, 0, 255 :: int)
         else and_then (getitem pal (nat idx)) (\<lambda>(r, g, b).
              and_then (getitem al (nat idx)) (\<lambda>a.
              Inr (uint r, uint g, uint b, uint a)))"
  have look_err: "?look idx \<noteq> Inl ValueError" for idx
    by (auto simp: and_then_eq_Inl getitem_def split: if_splits prod.splits)
  have look_ok: "0 \<le> r \<and> r \<le> 255 \<and> 0 \<le> g \<and> g \<le> 255 \<and> 0 \<le> b \<and> b \<le> 255 \<and> 0 \<le> a \<and> a \<le> 255"
    if "?look idx = Inr (r, g, b, a)" for idx r g b a
    using that uint_byte_bounds
    by (auto simp: and_then_eq_Inr getitem_def split: if_splits prod.splits)
  show False
  proof (cases "get_index_from_row bd row x")
    case (Inl e)
    with A have "e = ValueError" by (simp add: expand_indexed_pixel_def st)
    with get_index_from_row_error [OF Inl] show False by simp
  next
    case idx: (Inr idx)
    show False
    proof (cases "?look idx")
      case (Inl e)
      with A idx have "e = ValueError" by (simp add: expand_indexed_pixel_def st)
      with Inl look_err [of idx] show False by simp
    next
      case (Inr q)
      obtain r g b a where q: "q = (r, g, b, a)" by (cases q)
      note bd = look_ok [OF Inr [unfolded q]]
      have "expand_indexed_pixel bd np pal al row x st =
         and_then (setitem rgb off ((r * a + 255 * (255 - a)) div 255)) (\<lambda>buf1.
         and_then (setitem buf1 (off + 1) ((g * a + 255 * (255 - a)) div 255)) (\<lambda>buf2.
         and_then (setitem buf2 (off + 2) ((b * a + 255 * (255 - a)) div 255)) (\<lambda>buf3.
         Inr (buf3, off + 3))))"
        by (simp only: expand_indexed_pixel_def st Let_def prod.case idx and_then_Inr Inr q)
      moreover have "and_then (setitem rgb off ((r * a + 255 * (255 - a)) div 255)) (\<lambda>buf1.
         and_then (setitem buf1 (off + 1) ((g * a + 255 * (255 - a)) div 255)) (\<lambda>buf2.
         and_then (setitem buf2 (off + 2) ((b * a + 255 * (255 - a)) div 255)) (\<lambda>buf3.
         Inr (buf3, off + 3)))) \<noteq> Inl ValueError"
        using bd by (intro store3_not_ValueError composite_in_range) auto
      ultimately show False using A by simp
    qed
  qed
qed

lemma build_palette_not_ValueError: "build_palette p \<noteq> Inl ValueError"
proof
  assume "build_palette p = Inl ValueError"
  then show False
    unfolding build_palette_def
    by (auto dest!: for_each_error simp: and_then_eq_Inl getitem_def split: if_splits)
qed

lemma build_alpha_not_ValueError: "build_alpha n t \<noteq> Inl ValueError"
proof
  assume "build_alpha n t = Inl ValueError"
  then show False
    unfolding build_alpha_def Let_def
    by (auto dest!: for_each_error simp: and_then_eq_Inl getitem_def split: if_splits option.splits)
qed

lemma expand_indexed_not_ValueError:
  "expand_indexed bd w h sl rb pl tr \<noteq> Inl ValueError"
proof
  assume A: "expand_indexed bd w h sl rb pl tr = Inl ValueError"
  have row: "expand_indexed_row bd w sl rb np pal al y st \<noteq> Inl ValueError" for np pal al y st
    unfolding expand_indexed_row_def Let_def
    using expand_indexed_pixel_not_ValueError by (auto dest!: for_each_error)
  from A show False
    unfolding expand_indexed_def Let_def
    using build_palette_not_ValueError build_alpha_not_ValueError row
    by (auto simp: and_then_eq_Inl split: option.splits if_splits dest!: for_each_error)
qed


lemma flatten_rgba_pixel_not_ValueError: "flatten_rgba_pixel rgba i st \<noteq> Inl ValueError"
proof (cases "i + 3 < length rgba")
  case True
  obtain out j where st: "st = (out, j)" by (cases st)
  have g: "getitem rgba i = Inr (rgba ! i)" "getitem rgba (i + 1) = Inr (rgba ! (i + 1))"
    "getitem rgba (i + 2) = Inr (rgba ! (i + 2))" "getitem rgba (i + 3) = Inr (rgba ! (i + 3))"
    using True by (simp_all add: getitem_def)
  let ?a = "uint (rgba ! (i + 3))"
  have "flatten_rgba_pixel rgba i st =
         and_then (setitem out j ((uint (rgba ! i) * ?a + 255 * (255 - ?a)) div 255)) (\<lambda>buf1.
         and_then (setitem buf1 (j + 1) ((uint (rgba ! (i + 1)) * ?a + 255 * (255 - ?a)) div 255)) (\<lambda>buf2.
         and_then (setitem buf2 (j + 2) ((uint (rgba ! (i + 2)) * ?a + 255 * (255 - ?a)) div 255)) (\<lambda>buf3.
         Inr (buf3, j + 3))))"
    by (simp only: flatten_rgba_pixel_def st Let_def prod.case g and_then_Inr)
  moreover have
        "and_then (setitem out j ((uint (rgba ! i) * ?a + 255 * (255 - ?a)) div 255)) (\<lambda>buf1.
         and_then (setitem buf1 (j + 1) ((uint (rgba ! (i + 1)) * ?a + 255 * (255 - ?a)) div 255)) (\<lambda>buf2.
         and_then (setitem buf2 (j + 2) ((uint (rgba ! (i + 2)) * ?a + 255 * (255 - ?a)) div 255)) (\<lambda>buf3.
         Inr (buf3, j + 3)))) \<noteq> Inl ValueError"
    using uint_byte_bounds by (intro store3_not_ValueError composite_in_range) auto
  ultimately show ?thesis by simp
next
  case False
  then have "flatten_rgba_pixel rgba i st = Inl IndexError"
    by (cases st) (auto simp: flatten_rgba_pixel_def getitem_def and_then_def)
  then show ?thesis by simp
qed

lemma flatten_rgba_over_white_not_ValueError: "flatten_rgba_over_white rgba \<noteq> Inl ValueError"
proof
  assume "flatten_rgba_over_white rgba = Inl ValueError"
  then show False
    unfolding flatten_rgba_over_white_def
    using flatten_rgba_pixel_not_ValueError
    by (auto simp: and_then_eq_Inl split: if_splits dest!: for_each_error)
qed

lemma replicate_3: "replicate 3 x = [x, x, x]"
  by (simp add: numeral_3_eq_3)

text \<open>
  C4: for every buffer of \<open>n\<close> RGBA pixels \<^verbatim>\<open>_flatten_rgba_over_white\<close> returns \<open>3 * n\<close>
  bytes, and channel \<open>ch\<close> of pixel \<open>k\<close> is \<^verbatim>\<open>(c * a + 255 * (255 - a)) // 255\<close> for that
  pixel's channel value \<open>c\<close> and alpha \<open>a\<close>, the floor division of the integers with
  no wrap-around. So a pixel with alpha 255 keeps its channels, a pixel with alpha 0
  becomes white, and the pixel (200, 100, 50, 128) becomes (227, 177, 152).
\<close>

theorem flatten_rgba_over_white_formula:
  "(length rgba = 4 * n \<longrightarrow>
      (\<exists>out. flatten_rgba_over_white rgba = Inr out \<and> length out = 3 * n
         \<and> (\<forall>k < n. \<forall>ch < 3.
               uint (out ! (3 * k + ch))
               = (uint (rgba ! (4 * k + ch)) * uint (rgba ! (4 * k + 3))
                  + 255 * (255 - uint (rgba ! (4 * k + 3)))) div 255)))
   \<and> flatten_rgba_over_white [r, g, b, 255] = Inr [r, g, b]
   \<and> flatten_rgba_over_white [r, g, b, 0] = Inr [255, 255, 255]
   \<and> flatten_rgba_over_white [200, 100, 50, 128] = Inr [227, 177, 152]"
proof (intro conjI impI)
  assume "length rgba = 4 * n"
  then show "\<exists>out. flatten_rgba_over_white rgba = Inr out \<and> length out = 3 * n
         \<and> (\<forall>k < n. \<forall>ch < 3.
               uint (out ! (3 * k + ch))
               = (uint (rgba ! (4 * k + ch)) * uint (rgba ! (4 * k + 3))
                  + 255 * (255 - uint (rgba ! (4 * k + 3)))) div 255)"
    by (rule flatten_rgba_over_white_pixels)
next
  show "flatten_rgba_over_white [r, g, b, 255] = Inr [r, g, b]"
    using uint_byte_bounds [of r] uint_byte_bounds [of g] uint_byte_bounds [of b]
    by (simp add: flatten_rgba_over_white_def range_step_def flatten_rgba_pixel_def
          getitem_def setitem_def replicate_3)
next
  show "flatten_rgba_over_white [r, g, b, 0] = Inr [255, 255, 255]"
    by (simp add: flatten_rgba_over_white_def range_step_def flatten_rgba_pixel_def
          getitem_def setitem_def replicate_3)
next
  show "flatten_rgba_over_white [200, 100, 50, 128] = Inr [227, 177, 152]"
    by (simp add: flatten_rgba_over_white_def range_step_def flatten_rgba_pixel_def
          getitem_def setitem_def replicate_3)
qed

theorem flatten_rgba_over_white_formula_witness:
  "\<exists>out. flatten_rgba_over_white [200, 100, 50, 128] = Inr out \<and> length out = 3
     \<and> uint (out ! 0) = 227 \<and> uint (out ! 1) = 177 \<and> uint (out ! 2) = 152"
proof -
  have "length [200, 100, 50, 128 :: byte] = 4 * 1" by simp
  with flatten_rgba_over_white_formula [of "[200, 100, 50, 128]" 1 0 0 0]
  obtain out where o: "flatten_rgba_over_white [200, 100, 50, 128] = Inr out" "length out = 3 * 1"
    "\<forall>k < 1. \<forall>ch < 3. uint (out ! (3 * k + ch))
       = (uint ([200, 100, 50, 128 :: byte] ! (4 * k + ch)) * uint ([200, 100, 50, 128 :: byte] ! (4 * k + 3))
          + 255 * (255 - uint ([200, 100, 50, 128 :: byte] ! (4 * k + 3)))) div 255"
    by blast
  have "uint (out ! (3 * 0 + 0)) = 227" using o(3) [rule_format, of 0 0] by simp
  moreover have "uint (out ! (3 * 0 + 1)) = 177" using o(3) [rule_format, of 0 1] by simp
  moreover have "uint (out ! (3 * 0 + 2)) = 152" using o(3) [rule_format, of 0 2] by simp
  ultimately show ?thesis using o(1,2) by (simp add: numeral_2_eq_2)
qed

text \<open>
  C10: for all bytes \<open>c\<close> and \<open>a\<close> the composited value lies in \<open>[0, 255]\<close>, so storing it
  never raises \<^verbatim>\<open>ValueError\<close>: neither the loop body nor the whole of
  \<^verbatim>\<open>_flatten_rgba_over_white\<close>, nor the pixel step or the whole of the indexed-colour
  expansion, can end in a \<^verbatim>\<open>ValueError\<close>, whatever their arguments.
\<close>

theorem composite_stores_in_range:
  fixes c a :: byte
  shows "0 \<le> (uint c * uint a + 255 * (255 - uint a)) div 255
       \<and> (uint c * uint a + 255 * (255 - uint a)) div 255 \<le> 255
       \<and> setitem buf i ((uint c * uint a + 255 * (255 - uint a)) div 255) \<noteq> Inl ValueError
       \<and> flatten_rgba_pixel rgba k st \<noteq> Inl ValueError
       \<and> flatten_rgba_over_white rgba \<noteq> Inl ValueError
       \<and> expand_indexed_pixel bit_depth num_palette palette alpha row x st' \<noteq> Inl ValueError
       \<and> expand_indexed bit_depth width height scanline_len recon_bytes plte_data trns_data
           \<noteq> Inl ValueError"
proof -
  have r: "0 \<le> (uint c * uint a + 255 * (255 - uint a)) div 255
       \<and> (uint c * uint a + 255 * (255 - uint a)) div 255 \<le> 255"
    using uint_byte_bounds by (intro composite_in_range) auto
  then have "setitem buf i ((uint c * uint a + 255 * (255 - uint a)) div 255) \<noteq> Inl ValueError"
    by (intro setitem_not_ValueError) auto
  with r show ?thesis
    using flatten_rgba_pixel_not_ValueError flatten_rgba_over_white_not_ValueError
      expand_indexed_pixel_not_ValueError expand_indexed_not_ValueError
    by blast
qed

theorem composite_stores_in_range_witness:
  "0 \<le> (uint (200 :: byte) * uint (128 :: byte) + 255 * (255 - uint (128 :: byte))) div 255
   \<and> (uint (200 :: byte) * uint (128 :: byte) + 255 * (255 - uint (128 :: byte))) div 255 \<le> 255
   \<and> flatten_rgba_over_white [200, 100, 50, 128] \<noteq> Inl ValueError
   \<and> expand_indexed 8 1 1 1 [0] (Some [200, 100, 50]) (Some [128]) \<noteq> Inl ValueError"
  using composite_stores_in_range [of 200 128 "[]" 0 "[200, 100, 50, 128]" 0 "([], 0)"
          8 1 "[]" "[]" "[]" 0 "([], 0)" 1 1 1 "[0]" "Some [200, 100, 50]" "Some [128]"]
  by blast

section \<open>Size check of the unfilter\<close>

text \<open>
  C6: a decompressed buffer shorter than \<open>height * (1 + row_length)\<close> is a format error;
  a longer one is cut to exactly that length and unfiltered as its prefix.
\<close>

theorem unfilter_scanlines_size_check:
  "(length raw < height * (1 + row_length) \<longrightarrow>
      unfilter_scanlines raw height row_length bpp
        = Inl (PNGFormatError (IDATSizeUnexpected (length raw) (height * (1 + row_length)))))
   \<and> (height * (1 + row_length) < length raw \<longrightarrow>
      length (take (height * (1 + row_length)) raw) = height * (1 + row_length)
      \<and> unfilter_scanlines raw height row_length bpp
          = unfilter_scanlines (take (height * (1 + row_length)) raw) height row_length bpp)"
  by (simp add: unfilter_scanlines_def Let_def)

theorem unfilter_scanlines_size_check_witness:
  "unfilter_scanlines [0, 7] 1 2 1 = Inl (PNGFormatError (IDATSizeUnexpected 2 3))
   \<and> unfilter_scanlines [0, 7, 9, 4, 4] 1 2 1 = unfilter_scanlines [0, 7, 9] 1 2 1"
  using unfilter_scanlines_size_check [of "[0, 7]" 1 2 1]
        unfilter_scanlines_size_check [of "[0, 7, 9, 4, 4]" 1 2 1]
  by simp

section \<open>Reading a chunk\<close>

text \<open>
  C7: \<^verbatim>\<open>_read_chunk\<close> raises \<^verbatim>\<open>EOFError\<close> exactly on the empty stream. On a stream that
  starts with 1 to 3 bytes, that ends inside the type tag, inside the declared payload or
  inside the checksum, it raises a format error. When it returns a chunk, the stream
  held the whole chunk: its length field, the 4-byte tag, the payload of the declared
  length and 4 checksum bytes, and the rest of the stream follows.
\<close>

theorem read_chunk_eof_or_format_error:
  "(read_chunk s = Inl EOFError \<longleftrightarrow> s = [])
   \<and> (s \<noteq> [] \<and> length s < 4 \<longrightarrow> read_chunk s = Inl (PNGFormatError EOFChunkLength))
   \<and> (4 \<le> length s \<longrightarrow>
        (\<exists>len. unpack_u32 (take 4 s) = Inr len
           \<and> (length s < 8 \<longrightarrow> read_chunk s = Inl (PNGFormatError EOFChunkType))
           \<and> (8 \<le> length s \<and> length s < 8 + len \<longrightarrow>
                read_chunk s = Inl (PNGFormatError EOFChunkData))
           \<and> (8 + len \<le> length s \<and> length s < 12 + len \<longrightarrow>
                read_chunk s = Inl (PNGFormatError EOFChunkCRC))
           \<and> (12 + len \<le> length s \<longrightarrow>
                read_chunk s = Inr ((take 4 (drop 4 s), take len (drop 8 s)), drop (12 + len) s))))
   \<and> (read_chunk s = Inr ((t, d), rest) \<longrightarrow>
        length t = 4 \<and> unpack_u32 (take 4 s) = Inr (length d)
        \<and> (\<exists>crc. length crc = 4 \<and> s = take 4 s @ t @ d @ crc @ rest))"
proof -
  have p1: "read_chunk s = Inl EOFError \<longleftrightarrow> s = []"
  proof (cases "length s < 4")
    case True
    then show ?thesis by (simp add: read_chunk_cases)
  next
    case False
    then obtain len where "unpack_u32 (take 4 s) = Inr len"
      using unpack_u32_ok [of "take 4 s"] by auto
    with False show ?thesis by (auto simp: read_chunk_cases)
  qed
  have p2: "s \<noteq> [] \<and> length s < 4 \<longrightarrow> read_chunk s = Inl (PNGFormatError EOFChunkLength)"
    by (simp add: read_chunk_cases)
  have p3: "4 \<le> length s \<longrightarrow>
        (\<exists>len. unpack_u32 (take 4 s) = Inr len
           \<and> (length s < 8 \<longrightarrow> read_chunk s = Inl (PNGFormatError EOFChunkType))
           \<and> (8 \<le> length s \<and> length s < 8 + len \<longrightarrow>
                read_chunk s = Inl (PNGFormatError EOFChunkData))
           \<and> (8 + len \<le> length s \<and> length s < 12 + len \<longrightarrow>
                read_chunk s = Inl (PNGFormatError EOFChunkCRC))
           \<and> (12 + len \<le> length s \<longrightarrow>
                read_chunk s = Inr ((take 4 (drop 4 s), take len (drop 8 s)), drop (12 + len) s)))"
  proof
    assume 4: "4 \<le> length s"
    then obtain len where len: "unpack_u32 (take 4 s) = Inr len"
      using unpack_u32_ok [of "take 4 s"] by auto
    have ne: "s \<noteq> []" using 4 by auto
    show "\<exists>len. unpack_u32 (take 4 s) = Inr len
           \<and> (length s < 8 \<longrightarrow> read_chunk s = Inl (PNGFormatError EOFChunkType))
           \<and> (8 \<le> length s \<and> length s < 8 + len \<longrightarrow>
                read_chunk s = Inl (PNGFormatError EOFChunkData))
           \<and> (8 + len \<le> length s \<and> length s < 12 + len \<longrightarrow>
                read_chunk s = Inl (PNGFormatError EOFChunkCRC))
           \<and> (12 + len \<le> length s \<longrightarrow>
                read_chunk s = Inr ((take 4 (drop 4 s), take len (drop 8 s)), drop (12 + len) s))"
      using 4 ne len by (intro exI [of _ len]) (simp add: read_chunk_cases)
  qed
  have p4: "read_chunk s = Inr ((t, d), rest) \<longrightarrow>
        length t = 4 \<and> unpack_u32 (take 4 s) = Inr (length d)
        \<and> (\<exists>crc. length crc = 4 \<and> s = take 4 s @ t @ d @ crc @ rest)"
    using read_chunk_Inr by blast
  show ?thesis by (rule conjI [OF p1 conjI [OF p2 conjI [OF p3 p4]]])
qed

theorem read_chunk_eof_or_format_error_witness:
  "read_chunk [] = Inl EOFError
   \<and> read_chunk [0, 0] = Inl (PNGFormatError EOFChunkLength)
   \<and> read_chunk [0, 0, 0, 2, 0x49, 0x44] = Inl (PNGFormatError EOFChunkType)
   \<and> read_chunk [0, 0, 0, 2, 0x49, 0x44, 0x41, 0x54, 7] = Inl (PNGFormatError EOFChunkData)
   \<and> read_chunk [0, 0, 0, 2, 0x49, 0x44, 0x41, 0x54, 7, 8, 1, 2, 3]
        = Inl (PNGFormatError EOFChunkCRC)
   \<and> read_chunk [0, 0, 0, 2, 0x49, 0x44, 0x41, 0x54, 7, 8, 1, 2, 3, 4, 5]
        = Inr (([0x49, 0x44, 0x41, 0x54], [7, 8]), [5])"
proof -
  have w1: "read_chunk [] = Inl EOFError"
    using read_chunk_eof_or_format_error [of "[]"] by simp
  have w2: "read_chunk [0, 0] = Inl (PNGFormatError EOFChunkLength)"
    using read_chunk_eof_or_format_error [of "[0, 0]"] by simp
  have w3: "read_chunk [0, 0, 0, 2, 0x49, 0x44] = Inl (PNGFormatError EOFChunkType)"
    using read_chunk_eof_or_format_error [of "[0, 0, 0, 2, 0x49, 0x44]"]
    by (simp add: unpack_u32_4)
  have w4: "read_chunk [0, 0, 0, 2, 0x49, 0x44, 0x41, 0x54, 7] = Inl (PNGFormatError EOFChunkData)"
    using read_chunk_eof_or_format_error [of "[0, 0, 0, 2, 0x49, 0x44, 0x41, 0x54, 7]"]
    by (simp add: unpack_u32_4)
  have w5: "read_chunk [0, 0, 0, 2, 0x49, 0x44, 0x41, 0x54, 7, 8, 1, 2, 3]
        = Inl (PNGFormatError EOFChunkCRC)"
    using read_chunk_eof_or_format_error [of "[0, 0, 0, 2, 0x49, 0x44, 0x41, 0x54, 7, 8, 1, 2, 3]"]
    by (simp add: unpack_u32_4)
  have w6: "read_chunk [0, 0, 0, 2, 0x49, 0x44, 0x41, 0x54, 7, 8, 1, 2, 3, 4, 5]
        = Inr (([0x49, 0x44, 0x41, 0x54], [7, 8]), [5])"
    using read_chunk_eof_or_format_error [of "[0, 0, 0, 2, 0x49, 0x44, 0x41, 0x54, 7, 8, 1, 2, 3, 4, 5]"]
    by (simp add: unpack_u32_4)
  show ?thesis by (rule conjI [OF w1 conjI [OF w2 conjI [OF w3 conjI [OF w4 conjI [OF w5 w6]]]]])
qed

section \<open>Round trip of the chunk codec\<close>

text \<open>
  C9 (as stated, refuted for a payload of \<open>2 ^ 32\<close> bytes): the length field is an
  unsigned 32-bit integer, so \<^verbatim>\<open>struct.pack(">I", len(data))\<close> raises before anything
  is written, and reading the empty stream that results gives \<^verbatim>\<open>EOFError\<close>, not the
  chunk.
\<close>

theorem write_chunk_payload_too_long_counterexample:
  "write_chunk zlib_recorded [] IDAT (replicate (2 ^ 32) 0) = (Inl StructError, [])
   \<and> read_chunk [] = Inl EOFError"
  by (simp add: write_chunk_def pack_u32_def read_chunk_cases)

text \<open>
  C9 (amended): for every 4-byte chunk type \<open>t\<close> and every payload \<open>d\<close> of fewer than
  \<open>2 ^ 32\<close> bytes, \<^verbatim>\<open>_write_chunk\<close> succeeds, and \<^verbatim>\<open>_read_chunk\<close> on exactly the bytes it
  wrote returns \<open>(t, d)\<close> with nothing left in the stream. The same holds with any other
  4 bytes in the place of the checksum: it is not inspected.
\<close>

theorem write_chunk_read_chunk_round_trip:
  "length t = 4 \<and> length d < 2 ^ 32 \<longrightarrow>
     (\<exists>s. write_chunk zl [] t d = (Inr (), s)
        \<and> read_chunk s = Inr ((t, d), [])
        \<and> length s = 12 + length d
        \<and> (\<forall>crc. length crc = 4 \<longrightarrow>
              read_chunk (take (8 + length d) s @ crc) = Inr ((t, d), [])))"
proof
  assume A: "length t = 4 \<and> length d < 2 ^ 32"
  then have t: "length t = 4" and d: "length d < 2 ^ 32" by simp_all
  from write_chunk_ok [OF d, of zl "[]" t] obtain lb cb where
    w: "pack_u32 (length d) = Inr lb" "length cb = 4"
       "write_chunk zl [] t d = (Inr (), [] @ lb @ t @ d @ cb)" by blast
  from unpack_pack_u32 [OF d] w(1) have u: "unpack_u32 lb = Inr (length d)" by auto
  have lb: "length lb = 4" using w(1) by (rule pack_u32_length)
  have r: "read_chunk (lb @ t @ d @ crc @ []) = Inr ((t, d), [])" if "length crc = 4" for crc
    using u t that by (rule read_chunk_frame)
  have tk: "take (8 + length d) (lb @ t @ d @ cb) = lb @ t @ d"
    using lb t by simp
  show "\<exists>s. write_chunk zl [] t d = (Inr (), s)
        \<and> read_chunk s = Inr ((t, d), [])
        \<and> length s = 12 + length d
        \<and> (\<forall>crc. length crc = 4 \<longrightarrow>
              read_chunk (take (8 + length d) s @ crc) = Inr ((t, d), []))"
    using w(3) r [OF w(2)] r lb t w(2) tk
    by (intro exI [of _ "lb @ t @ d @ cb"]) simp
qed

theorem write_chunk_read_chunk_round_trip_witness:
  "write_chunk zlib_recorded [] gAMA [0, 0, 177, 143]
     = (Inr (), [0, 0, 0, 4, 103, 65, 77, 65, 0, 0, 177, 143, 11, 252, 97, 5])
   \<and> read_chunk [0, 0, 0, 4, 103, 65, 77, 65, 0, 0, 177, 143, 11, 252, 97, 5]
     = Inr ((gAMA, [0, 0, 177, 143]), [])"
proof -
  have w: "write_chunk zlib_recorded [] gAMA [0, 0, 177, 143]
     = (Inr (), [0, 0, 0, 4, 103, 65, 77, 65, 0, 0, 177, 143, 11, 252, 97, 5])"
    by (simp add: write_chunk_def pack_u32_def zlib_recorded_def gAMA_def Let_def)
  have "length gAMA = 4 \<and> length [0, 0, 177, 143 :: byte] < 2 ^ 32"
    by (simp add: gAMA_def)
  with write_chunk_read_chunk_round_trip [of gAMA "[0, 0, 177, 143]" zlib_recorded]
  obtain s where "write_chunk zlib_recorded [] gAMA [0, 0, 177, 143] = (Inr (), s)"
    "read_chunk s = Inr ((gAMA, [0, 0, 177, 143]), [])" by blast
  with w show ?thesis by simp
qed

section \<open>Unfiltering inverts the reference filter\<close>

lemma mask255_range: "0 \<le> (k :: int) AND 0xFF \<and> k AND 0xFF \<le> 255"
  by (simp add: AND_upper2)

lemma word_of_int_mask255: "(word_of_int (k AND 0xFF) :: byte) = word_of_int k"
proof -
  have "(0xFF :: int) = mask 8" by (simp add: mask_eq_exp_minus_1)
  then have "k AND 0xFF = take_bit 8 k" by (simp only: take_bit_eq_mask)
  then show ?thesis by (simp add: word_of_int_eq_iff)
qed

lemma refilter_byte: "(word_of_int ((uint (word_of_int (uint x - p) :: byte) + p) AND 0xFF) :: byte) = x"
proof -
  have "(word_of_int ((uint (word_of_int (uint x - p) :: byte) + p) AND 0xFF) :: byte)
        = word_of_int (uint (word_of_int (uint x - p) :: byte) + p)"
    by (rule word_of_int_mask255)
  also have "\<dots> = word_of_int (uint x - p) + word_of_int p"
    by (simp only: wi_hom_add [symmetric] word_of_int_uint)
  also have "\<dots> = x"
    by (simp only: wi_hom_sub [symmetric] word_of_int_uint) simp
  finally show ?thesis .
qed

lemma setitem_masked:
  "i < length buf \<Longrightarrow> setitem buf i (k AND 0xFF) = Inr (buf[i := word_of_int k])"
proof -
  assume i: "i < length buf"
  have r: "\<not> 255 < k AND 0xFF" using mask255_range [of k] by linarith
  show ?thesis using i r by (simp add: setitem_def word_of_int_mask255)
qed

lemma partly_unfiltered_update:
  assumes "i < length row" "length filt = length row"
  shows "(take i row @ drop i filt)[i := row ! i] = take (Suc i) row @ drop (Suc i) filt"
proof -
  have "drop i filt = filt ! i # drop (Suc i) filt"
    using assms by (simp add: Cons_nth_drop_Suc)
  then have "(take i row @ drop i filt)[i := row ! i] = take i row @ (row ! i # drop (Suc i) filt)"
    using assms by (simp add: list_update_append)
  then show ?thesis using assms by (simp add: take_Suc_conv_app_nth)
qed

lemma partly_unfiltered_nth:
  assumes "i < length row" "length filt = length row"
  shows "(take i row @ drop i filt) ! i = filt ! i"
    and "j < i \<Longrightarrow> (take i row @ drop i filt) ! j = row ! j"
    and "length (take i row @ drop i filt) = length row"
  using assms by (simp_all add: nth_append)

lemma unfilter_loop_generic:
  fixes row filt :: bytes
  assumes len: "length filt = length row"
    and step: "\<And>i. i < length row \<Longrightarrow>
                 stepf i (take i row @ drop i filt) = Inr ((take i row @ drop i filt)[i := row ! i])"
  shows "for_each [0..<length row] stepf filt = Inr row"
proof -
  let ?I = "\<lambda>i cur. cur = take i row @ drop i filt"
  have "\<exists>s'. for_each [0..<length row] stepf filt = Inr s' \<and> ?I (length row) s'"
  proof (rule for_each_upt_invariant [where I = ?I])
    show "?I 0 filt" by simp
    show "0 \<le> length row" by simp
    fix i and s :: bytes
    assume "0 \<le> i" "i < length row" "?I i s"
    then show "\<exists>s'. stepf i s = Inr s' \<and> ?I (Suc i) s'"
      using step [of i] partly_unfiltered_update [OF _ len, of i] by simp
  qed
  then show ?thesis using len by simp
qed

lemma left_of_partly:
  assumes "i < length row" "length filt = length row" "1 \<le> bpp"
  shows "left_of (take i row @ drop i filt) bpp i
         = Inr (uint (if i \<ge> bpp then row ! (i - bpp) else 0))"
proof (cases "i \<ge> bpp")
  case True
  then have lt: "i - bpp < i" using assms(3) by simp
  then have "i - bpp < length (take i row @ drop i filt)" using assms by simp
  moreover have "(take i row @ drop i filt) ! (i - bpp) = row ! (i - bpp)"
    using partly_unfiltered_nth(2) [OF assms(1,2) lt] .
  ultimately show ?thesis using True by (simp add: left_of_def getitem_def)
next
  case False
  then show ?thesis by (simp add: left_of_def)
qed

lemma left_of_prev:
  assumes "i < length prev"
  shows "left_of prev bpp i = Inr (uint (if i \<ge> bpp then prev ! (i - bpp) else 0))"
  using assms by (simp add: left_of_def getitem_def less_imp_diff_less)

lemma ref_filter_row_nth:
  "i < length row \<Longrightarrow> ref_filter_row T bpp prev row ! i =
     word_of_int (uint (row ! i)
                 - ref_predictor T (if i \<ge> bpp then row ! (i - bpp) else 0)
                     (prev ! i)
                     (if i \<ge> bpp then prev ! (i - bpp) else 0))"
  by (simp add: ref_filter_row_def)

lemma length_ref_filter_row [simp]: "length (ref_filter_row T bpp prev row) = length row"
  by (simp add: ref_filter_row_def)

lemma row_round_trip_generic:
  fixes row prev :: bytes
  assumes stepeq: "\<And>i. i < length row \<Longrightarrow>
      stepf i (take i row @ drop i (ref_filter_row T bpp prev row))
      = setitem (take i row @ drop i (ref_filter_row T bpp prev row)) i
          ((uint (ref_filter_row T bpp prev row ! i)
            + ref_predictor T (if i \<ge> bpp then row ! (i - bpp) else 0) (prev ! i)
                (if i \<ge> bpp then prev ! (i - bpp) else 0)) AND 0xFF)"
  shows "for_each [0..<length row] stepf (ref_filter_row T bpp prev row) = Inr row"
proof (rule unfilter_loop_generic)
  show "length (ref_filter_row T bpp prev row) = length row" by simp
next
  fix i assume i: "i < length row"
  let ?f = "ref_filter_row T bpp prev row"
  let ?cur = "take i row @ drop i ?f"
  let ?p = "ref_predictor T (if i \<ge> bpp then row ! (i - bpp) else 0) (prev ! i)
                (if i \<ge> bpp then prev ! (i - bpp) else 0)"
  have f: "?f ! i = word_of_int (uint (row ! i) - ?p)"
    using i by (rule ref_filter_row_nth)
  have "stepf i ?cur = setitem ?cur i ((uint (?f ! i) + ?p) AND 0xFF)"
    using i by (rule stepeq)
  also have "\<dots> = Inr (?cur[i := word_of_int (uint (?f ! i) + ?p)])"
    using i by (intro setitem_masked) simp
  also have "word_of_int (uint (?f ! i) + ?p) = row ! i"
    unfolding f word_of_int_mask255 [symmetric, of "uint (word_of_int (uint (row ! i) - ?p) :: byte) + ?p"]
    by (rule refilter_byte)
  finally show "stepf i ?cur = Inr (?cur[i := row ! i])" .
qed

lemma unfilter_row_round_trip:
  fixes row prev :: bytes
  assumes T: "T \<in> {1, 2, 3, 4}" and bpp: "1 \<le> bpp" and len: "length prev = length row"
  shows "unfilter_row T (length row) bpp prev (ref_filter_row T bpp prev row) = Inr row"
proof -
  let ?f = "ref_filter_row T bpp prev row"
  have l: "left_of (take i row @ drop i ?f) bpp i
             = Inr (uint (if i \<ge> bpp then row ! (i - bpp) else 0))" if "i < length row" for i
    using that bpp by (intro left_of_partly) simp_all
  have ul: "left_of prev bpp i = Inr (uint (if i \<ge> bpp then prev ! (i - bpp) else 0))"
    if "i < length row" for i
    using that len by (intro left_of_prev) simp
  have g: "getitem (take i row @ drop i ?f) i = Inr (?f ! i)" if "i < length row" for i
    using that by (simp add: getitem_def nth_append)
  have u: "getitem prev i = Inr (prev ! i)" if "i < length row" for i
    using that len by (simp add: getitem_def)
  consider "T = 1" | "T = 2" | "T = 3" | "T = 4" using T by auto
  then show ?thesis
  proof cases
    case 1
    then have p: "ref_predictor T a b c = uint a" for a b c
      by (simp add: ref_predictor_def)
    have "for_each [0..<length row] (unfilter_sub_step bpp) ?f = Inr row"
      by (rule row_round_trip_generic) (simp add: unfilter_sub_step_def l g p)
    then show ?thesis by (simp add: unfilter_row_def 1)
  next
    case 2
    then have p: "ref_predictor T a b c = uint b" for a b c
      by (simp add: ref_predictor_def)
    have "for_each [0..<length row] (unfilter_up_step prev) ?f = Inr row"
      by (rule row_round_trip_generic) (simp add: unfilter_up_step_def u g p)
    then show ?thesis by (simp add: unfilter_row_def 2)
  next
    case 3
    then have p: "ref_predictor T a b c = (uint a + uint b) div 2" for a b c
      by (simp add: ref_predictor_def)
    have "for_each [0..<length row] (unfilter_average_step bpp prev) ?f = Inr row"
      by (rule row_round_trip_generic) (simp add: unfilter_average_step_def l u g p)
    then show ?thesis by (simp add: unfilter_row_def 3)
  next
    case 4
    then have p: "ref_predictor T a b c = paeth_predictor (uint a) (uint b) (uint c)" for a b c
      by (simp add: ref_predictor_def)
    have "for_each [0..<length row] (unfilter_paeth_step bpp prev) ?f = Inr row"
      by (rule row_round_trip_generic) (simp add: unfilter_paeth_step_def l u ul g p)
    then show ?thesis by (simp add: unfilter_row_def 4)
  qed
qed

lemma unfilter_scanlines_single_row:
  assumes "unfilter_row (unat ft) n bpp (replicate n 0) filt = Inr row"
    "length filt = n" "length row = n"
  shows "unfilter_scanlines (ft # filt) 1 n bpp = Inr row"
  using assms
  by (simp add: unfilter_scanlines_def unfilter_scanline_def getitem_def slice_def setslice_def)

text \<open>
  C5: for every row of at least one pixel stride (a stride of at least one byte) and
  every filter type \<open>T\<close> of 1 (Sub), 2 (Up), 3 (Average) and 4 (Paeth), filtering the row
  with the reference filter against a zero-filled previous row and unfiltering the
  result, as the single scanline of a buffer with its filter-type byte, gives back the
  row. The same holds for one row against any previous row of the same length.
\<close>

theorem unfilter_inverts_reference_filter:
  "T \<in> {1, 2, 3, 4} \<and> 1 \<le> bpp \<and> bpp \<le> length row \<longrightarrow>
     unfilter_scanlines (of_nat T # ref_filter_row T bpp (replicate (length row) 0) row)
        1 (length row) bpp = Inr row
     \<and> (\<forall>prev. length prev = length row \<longrightarrow>
           unfilter_row T (length row) bpp prev (ref_filter_row T bpp prev row) = Inr row)"
proof (intro impI conjI allI)
  assume A: "T \<in> {1, 2, 3, 4} \<and> 1 \<le> bpp \<and> bpp \<le> length row"
  then have T: "T \<in> {1, 2, 3, 4}" and bpp: "1 \<le> bpp" by simp_all
  have "unat (of_nat T :: byte) = T" using T by auto
  moreover have "unfilter_row T (length row) bpp (replicate (length row) 0)
          (ref_filter_row T bpp (replicate (length row) 0) row) = Inr row"
    using T bpp by (intro unfilter_row_round_trip) simp_all
  ultimately show "unfilter_scanlines (of_nat T # ref_filter_row T bpp (replicate (length row) 0) row)
        1 (length row) bpp = Inr row"
    by (intro unfilter_scanlines_single_row) simp_all
next
  fix prev :: bytes
  assume A: "T \<in> {1, 2, 3, 4} \<and> 1 \<le> bpp \<and> bpp \<le> length row"
    and len: "length prev = length row"
  then show "unfilter_row T (length row) bpp prev (ref_filter_row T bpp prev row) = Inr row"
    by (intro unfilter_row_round_trip) simp_all
qed

theorem unfilter_inverts_reference_filter_witness:
  "unfilter_scanlines [1, 10, 250, 249, 13] 1 4 2 = Inr [10, 250, 3, 7]
   \<and> unfilter_scanlines [4, 10, 240, 9, 4] 1 4 1 = Inr [10, 250, 3, 7]"
proof -
  have f1: "ref_filter_row 1 2 (replicate (length [10, 250, 3, 7 :: byte]) 0) [10, 250, 3, 7]
            = [10, 250, 249, 13]"
    by (simp add: ref_filter_row_def ref_predictor_def)
  have f4: "ref_filter_row 4 1 (replicate (length [10, 250, 3, 7 :: byte]) 0) [10, 250, 3, 7]
            = [10, 240, 9, 4]"
    by (simp add: ref_filter_row_def ref_predictor_def paeth_predictor_def)
  have h1: "(1 :: nat) \<in> {1, 2, 3, 4} \<and> 1 \<le> (2 :: nat) \<and> 2 \<le> length [10, 250, 3, 7 :: byte]"
    by simp
  have h4: "(4 :: nat) \<in> {1, 2, 3, 4} \<and> 1 \<le> (1 :: nat) \<and> 1 \<le> length [10, 250, 3, 7 :: byte]"
    by simp
  have "unfilter_scanlines (of_nat 1 # [10, 250, 249, 13]) 1 (length [10, 250, 3, 7 :: byte]) 2
        = Inr [10, 250, 3, 7]"
    using unfilter_inverts_reference_filter [of 1 2 "[10, 250, 3, 7]"] h1 unfolding f1 by blast
  moreover have "unfilter_scanlines (of_nat 4 # [10, 240, 9, 4]) 1 (length [10, 250, 3, 7 :: byte]) 1
        = Inr [10, 250, 3, 7]"
    using unfilter_inverts_reference_filter [of 4 1 "[10, 250, 3, 7]"] h4 unfolding f4 by blast
  moreover have l4: "length [10, 250, 3, 7 :: byte] = 4" by simp
  ultimately show ?thesis unfolding l4 by simp
qed

section \<open>Facts about writing the output\<close>

lemma then_write_error:
  assumes "then_write r next_write = (Inl e, out)"
    and "\<And>o1. r = (Inl e, o1) \<Longrightarrow> P"
    and "\<And>o1 o2. next_write o1 = (Inl e, o2) \<Longrightarrow> P"
  shows P
  using assms by (auto simp: then_write_def split: prod.splits sum.splits)

lemma write_ancillary_error:
  "write_ancillary zl anc out = (Inl e, out') \<Longrightarrow> e = StructError"
proof (induction anc arbitrary: out out')
  case Nil
  then show ?case by simp
next
  case (Cons c anc)
  obtain ctype cdata where c: "c = (ctype, cdata)" by (cases c)
  show ?case
  proof (cases "ctype \<in> {sRGB, gAMA, cHRM}")
    case True
    with Cons.prems c have "then_write (write_chunk zl out ctype cdata) (write_ancillary zl anc) = (Inl e, out')"
      by simp
    then show ?thesis
      by (rule then_write_error) (use write_chunk_error Cons.IH in blast)+
  next
    case False
    with Cons.prems c have "write_ancillary zl anc out = (Inl e, out')" by simp
    then show ?thesis by (rule Cons.IH)
  qed
qed

lemma write_png_error:
  assumes "write_png zl width height ancillary compressed = (Inl e, out)"
  shows "e = StructError"
proof (cases "and_then (pack_u32 width) (\<lambda>w. and_then (pack_u32 height) (\<lambda>h. Inr (w @ h @ [8, 2, 0, 0, 0 :: byte])))")
  case (Inl e')
  then have "e' = StructError"
    by (auto simp: and_then_eq_Inl dest: pack_u32_error)
  with assms Inl show ?thesis by (simp add: write_png_def)
next
  case (Inr new_ihdr)
  with assms have
    "then_write (write_chunk zl ([] @ PNG_SIGNATURE) IHDR new_ihdr) (\<lambda>out1.
     then_write (write_ancillary zl ancillary out1) (\<lambda>out2.
     then_write (write_chunk zl out2 IDAT compressed) (\<lambda>out3.
     write_chunk zl out3 IEND []))) = (Inl e, out)"
    by (simp add: write_png_def)
  then show ?thesis
    by (elim then_write_error) (auto dest: write_chunk_error write_ancillary_error)
qed

lemma flatten_cases:
  "flatten_png_alpha_to_white zl w src dst ov = (res, w') \<Longrightarrow>
     (res = Inl FileNotFoundError \<and> w' = w \<and> files w src = None)
   \<or> (\<exists>f e. files w src = Some f \<and> decode_and_reencode zl f = Inl e \<and> res = Inl e \<and> w' = w)
   \<or> (\<exists>f width height ancillary compressed r out path.
         files w src = Some f
       \<and> decode_and_reencode zl f = Inr (width, height, ancillary, compressed)
       \<and> write_png zl width height ancillary compressed = (r, out)
       \<and> path = (case dst of None \<Rightarrow> (if ov then src else src @ ''.flattened.png'')
                   | Some p \<Rightarrow> if p = [] then (if ov then src else src @ ''.flattened.png'') else p)
       \<and> w' = w\<lparr>files := (files w)(path \<mapsto> out),
                 opened_for_writing := opened_for_writing w @ [path]\<rparr>
       \<and> res = (case r of Inl e \<Rightarrow> Inl e | Inr u \<Rightarrow> Inr path))"
  unfolding flatten_png_alpha_to_white_def Let_def
  by (auto split: option.splits sum.splits prod.splits)


lemma pack_u32_be32: "pack_u32 n = Inr b \<Longrightarrow> b = be32 n"
  by (auto simp: pack_u32_def be32_def split: if_splits)

lemma write_chunk_Inr:
  "write_chunk zl out t d = (Inr u, out') \<Longrightarrow> out' = out @ chunk_bytes zl (t, d)"
  by (auto simp: write_chunk_def chunk_bytes_def Let_def split: sum.splits dest: pack_u32_be32)

lemma then_write_Inr:
  assumes "then_write r next_write = (Inr u, out)"
  obtains u1 o1 where "r = (Inr u1, o1)" "next_write o1 = (Inr u, out)"
  using assms by (auto simp: then_write_def split: prod.splits sum.splits)

lemma write_ancillary_Inr:
  "write_ancillary zl anc out = (Inr u, out') \<Longrightarrow>
     out' = out @ concat (map (chunk_bytes zl) (filter whitelisted anc))"
proof (induction anc arbitrary: out out')
  case Nil
  then show ?case by simp
next
  case (Cons c anc)
  obtain ctype cdata where c: "c = (ctype, cdata)" by (cases c)
  show ?case
  proof (cases "ctype \<in> {sRGB, gAMA, cHRM}")
    case True
    with Cons.prems c have "then_write (write_chunk zl out ctype cdata) (write_ancillary zl anc) = (Inr u, out')"
      by simp
    then obtain u1 o1 where 1: "write_chunk zl out ctype cdata = (Inr u1, o1)"
      and 2: "write_ancillary zl anc o1 = (Inr u, out')" by (rule then_write_Inr)
    from write_chunk_Inr [OF 1] Cons.IH [OF 2] True c show ?thesis
      by (simp add: whitelisted_def)
  next
    case False
    with Cons.prems c have "write_ancillary zl anc out = (Inr u, out')" by simp
    from Cons.IH [OF this] False c show ?thesis by (simp add: whitelisted_def)
  qed
qed

lemma write_png_Inr:
  assumes "write_png zl width height ancillary compressed = (Inr u, out)"
  shows "out = PNG_SIGNATURE
           @ chunk_bytes zl (IHDR, be32 width @ be32 height @ [8, 2, 0, 0, 0])
           @ concat (map (chunk_bytes zl) (filter whitelisted ancillary))
           @ chunk_bytes zl (IDAT, compressed)
           @ chunk_bytes zl (IEND, [])"
proof (cases "and_then (pack_u32 width) (\<lambda>w. and_then (pack_u32 height) (\<lambda>h. Inr (w @ h @ [8, 2, 0, 0, 0 :: byte])))")
  case (Inl e')
  with assms show ?thesis by (simp add: write_png_def)
next
  case (Inr new_ihdr)
  then have n: "new_ihdr = be32 width @ be32 height @ [8, 2, 0, 0, 0]"
    by (auto simp: and_then_eq_Inr dest: pack_u32_be32)
  from assms Inr have
    "then_write (write_chunk zl ([] @ PNG_SIGNATURE) IHDR new_ihdr) (\<lambda>out1.
     then_write (write_ancillary zl ancillary out1) (\<lambda>out2.
     then_write (write_chunk zl out2 IDAT compressed) (\<lambda>out3.
     write_chunk zl out3 IEND []))) = (Inr u, out)"
    by (simp add: write_png_def)
  then obtain u1 o1 u2 o2 u3 o3 where
    1: "write_chunk zl ([] @ PNG_SIGNATURE) IHDR new_ihdr = (Inr u1, o1)"
    and 2: "write_ancillary zl ancillary o1 = (Inr u2, o2)"
    and 3: "write_chunk zl o2 IDAT compressed = (Inr u3, o3)"
    and 4: "write_chunk zl o3 IEND [] = (Inr u, out)"
    by (elim then_write_Inr) blast
  show ?thesis
    using write_chunk_Inr [OF 1] write_ancillary_Inr [OF 2] write_chunk_Inr [OF 3]
      write_chunk_Inr [OF 4] n
    by simp
qed

lemma read_header_Inr:
  assumes "read_header f = Inr ((width, height, bit_depth, color_type), f2)"
  shows "take 8 f = PNG_SIGNATURE \<and> take 4 (drop 12 f) = IHDR
       \<and> be32 width = take 4 (drop 16 f) \<and> be32 height = take 4 (drop 20 f)
       \<and> bit_depth = 8 \<and> unat (f ! 24) = 8 \<and> unat (f ! 25) = color_type
       \<and> unat (f ! 26) = 0 \<and> unat (f ! 27) = 0 \<and> unat (f ! 28) = 0
       \<and> f2 = drop 33 f \<and> 33 \<le> length f"
proof -
  from assms have sig: "take 8 f = PNG_SIGNATURE"
    by (auto simp: read_header_def stream_read_def split: if_splits)
  from assms sig obtain chunk_type data where
    rc: "read_chunk (drop 8 f) = Inr ((chunk_type, data), f2)"
    and ct: "chunk_type = IHDR" and ld: "length data = 13"
    and w: "unpack_u32 (slice data 0 4) = Inr width"
    and h: "unpack_u32 (slice data 4 8) = Inr height"
    and bd: "unat (data ! 8) = 8" "bit_depth = 8" and c: "unat (data ! 9) = color_type"
    and z: "unat (data ! 10) = 0" "unat (data ! 11) = 0" "unat (data ! 12) = 0"
    by (auto simp: read_header_def stream_read_def and_then_eq_Inr Let_def split: if_splits)
  from rc have 4: "4 \<le> length (drop 8 f)"
    by (auto simp: read_chunk_cases split: if_splits)
  then obtain len where len: "unpack_u32 (take 4 (drop 8 f)) = Inr len"
    using unpack_u32_ok [of "take 4 (drop 8 f)"] by auto
  from rc len have l: "12 + len \<le> length (drop 8 f)" and t: "chunk_type = take 4 (drop 12 f)"
    and d: "data = take len (drop 16 f)" and f2: "f2 = drop (20 + len) f"
    by (auto simp: read_chunk_cases add.commute split: if_splits)
  from d l ld have len13: "len = 13" by simp
  have nth: "data ! k = f ! (16 + k)" if "k < 13" for k
    using that l unfolding d len13 by simp
  have "pack_u32 width = Inr (take 4 (drop 16 f))"
    using pack_unpack_u32 [OF w] l unfolding d len13 slice_def by (simp add: min_def)
  then have bw: "be32 width = take 4 (drop 16 f)" by (auto dest: pack_u32_be32)
  have "pack_u32 height = Inr (take 4 (drop 20 f))"
    using pack_unpack_u32 [OF h] l unfolding d len13 slice_def
    by (simp add: min_def take_drop add.commute)
  then have bh: "be32 height = take 4 (drop 20 f)" by (auto dest: pack_u32_be32)
  show ?thesis
    using sig t ct bw bh bd c z f2 l nth [of 8] nth [of 9] nth [of 10] nth [of 11] nth [of 12]
    by (simp add: len13)
qed

section \<open>Evaluating the examples\<close>

lemmas eval_simps = stream_read_def read_chunk_cases unpack_u32_4 slice_def
  PNG_SIGNATURE_def IHDR_def IDAT_def PLTE_def tRNS_def IEND_def sRGB_def gAMA_def cHRM_def

lemma read_header_png_truncated: "read_header png_truncated
   = Inr ((1, 1, 8, 6), [0, 0, 0, 255, 73, 68, 65, 84, 120, 218, 99])"
  by (simp add: read_header_def png_truncated_def eval_simps)

lemma read_chunks_png_truncated: "read_chunks [0, 0, 0, 255, 73, 68, 65, 84, 120, 218, 99] acc = Inl (PNGFormatError EOFChunkData)"
  by (subst read_chunks.simps) (simp add: eval_simps)

lemma decode_png_truncated: "decode_and_reencode zlib_recorded png_truncated = Inl (PNGFormatError EOFChunkData)"
  by (simp add: decode_and_reencode_def read_header_png_truncated read_chunks_png_truncated)

lemma flatten_png_truncated: "fst (flatten_png_alpha_to_white zlib_recorded (world_of png_truncated) ''in.png'' None False)
     = Inl (PNGFormatError EOFChunkData)"
  by (simp add: flatten_png_alpha_to_white_def world_of_def decode_png_truncated)


lemma read_header_png_rgba: "read_header png_rgba
   = Inr ((1, 1, 8, 6), [0, 0, 0, 4, 103, 65, 77, 65, 0, 0, 177, 143, 11, 252, 97, 5, 0, 0, 0, 10, 116, 69, 88, 116, 67, 111, 109, 109, 101, 110, 116, 0, 104, 105, 162, 162, 88, 102, 0, 0, 0, 13, 73, 68, 65, 84, 120, 218, 99, 56, 145, 98, 212, 0, 0, 5, 53, 1, 223, 172, 60, 241, 203, 0, 0, 0, 0, 73, 69, 78, 68, 174, 66, 96, 130])"
  by (simp add: read_header_def png_rgba_def eval_simps)

lemma read_chunks_png_rgba: "read_chunks [0, 0, 0, 4, 103, 65, 77, 65, 0, 0, 177, 143, 11, 252, 97, 5, 0, 0, 0, 10, 116, 69, 88, 116, 67, 111, 109, 109, 101, 110, 116, 0, 104, 105, 162, 162, 88, 102, 0, 0, 0, 13, 73, 68, 65, 84, 120, 218, 99, 56, 145, 98, 212, 0, 0, 5, 53, 1, 223, 172, 60, 241, 203, 0, 0, 0, 0, 73, 69, 78, 68, 174, 66, 96, 130]
     \<lparr>idat_parts = [], ancillary_chunks = [], plte = None, trns = None\<rparr>
   = Inr \<lparr>idat_parts = [[120, 218, 99, 56, 145, 98, 212, 0, 0, 5, 53, 1, 223]],
          ancillary_chunks = [([103, 65, 77, 65], [0, 0, 177, 143]),
                              ([116, 69, 88, 116], [67, 111, 109, 109, 101, 110, 116, 0, 104, 105])],
          plte = None, trns = None\<rparr>"
  by (simp add: read_chunks.simps eval_simps)

lemma unfilter_png_rgba: "unfilter_scanlines [0, 200, 100, 50, 128] (Suc 0) 4 4 = Inr [200, 100, 50, 128]"
  by (simp add: unfilter_scanlines_def unfilter_scanline_def unfilter_row_def getitem_def
        slice_def setslice_def Let_def)

lemma reencode_png_rgba: "reencode_rows [227, 177, 152] (Suc 0) (Suc 0) = Inr [0, 227, 177, 152]"
  by (simp add: reencode_rows_def reencode_row_def setitem_def slice_def setslice_def
        Let_def)


lemma composite_png_rgba: "flatten_rgba_over_white [200, 100, 50, 128] = Inr [227, 177, 152]"
  by (simp add: flatten_rgba_over_white_def range_step_def flatten_rgba_pixel_def
        getitem_def setitem_def replicate_3)

lemma decode_png_rgba: "decode_and_reencode zlib_recorded png_rgba
     = Inr (1, 1, [([103, 65, 77, 65], [0, 0, 177, 143]),
                   ([116, 69, 88, 116], [67, 111, 109, 109, 101, 110, 116, 0, 104, 105])],
            [120, 218, 99, 120, 188, 113, 6, 0, 4, 167, 2, 45])"
  by (simp add: decode_and_reencode_def read_header_png_rgba read_chunks_png_rgba zlib_recorded_def layout_def unfilter_png_rgba composite_png_rgba reencode_png_rgba)

lemma write_png_rgba: "write_png zlib_recorded (Suc 0) (Suc 0) [([103, 65, 77, 65], [0, 0, 177, 143]),
                   ([116, 69, 88, 116], [67, 111, 109, 109, 101, 110, 116, 0, 104, 105])]
            [120, 218, 99, 120, 188, 113, 6, 0, 4, 167, 2, 45]
     = (Inr (), png_rgba_flattened)"
  by (simp add: write_png_def then_write_def write_chunk_def pack_u32_def zlib_recorded_def
        png_rgba_flattened_def eval_simps Let_def)

lemma flatten_png_rgba: "flatten_png_alpha_to_white zlib_recorded (world_of png_rgba) ''in.png'' None False
     = (Inr ''in.png.flattened.png'',
        \<lparr>files = [''in.png'' \<mapsto> png_rgba, ''in.png.flattened.png'' \<mapsto> png_rgba_flattened],
         opened_for_writing = [''in.png.flattened.png'']\<rparr>)"
  by (simp add: flatten_png_alpha_to_white_def world_of_def decode_png_rgba write_png_rgba Let_def)

section \<open>No output on a format error\<close>

text \<open>
  C3: when \<^verbatim>\<open>flatten_png_alpha_to_white\<close> raises a format error, the files and the list of
  paths opened for writing are what they were before the call; and whenever the call
  changes either, the whole of reading, decompressing, unfiltering, expanding,
  re-encoding and compressing had succeeded before.
\<close>

theorem format_error_opens_no_output:
  "(fst (flatten_png_alpha_to_white zl w src dst ov) = Inl (PNGFormatError r)
      \<longrightarrow> snd (flatten_png_alpha_to_white zl w src dst ov) = w)
   \<and> (snd (flatten_png_alpha_to_white zl w src dst ov) \<noteq> w
      \<longrightarrow> (\<exists>f res. files w src = Some f \<and> decode_and_reencode zl f = Inr res))"
proof -
  obtain res w' where fl: "flatten_png_alpha_to_white zl w src dst ov = (res, w')"
    by (cases "flatten_png_alpha_to_white zl w src dst ov")
  note c = flatten_cases [OF fl]
  have 1: "res = Inl (PNGFormatError r) \<longrightarrow> w' = w"
  proof
    assume R: "res = Inl (PNGFormatError r)"
    from c show "w' = w"
    proof (elim disjE exE conjE)
      assume "w' = w"
      then show ?thesis .
    next
      fix f e assume "w' = w"
      then show ?thesis .
    next
      fix f width height ancillary compressed r' out path
      assume wp: "write_png zl width height ancillary compressed = (r', out)"
        and res: "res = (case r' of Inl e \<Rightarrow> Inl e | Inr u \<Rightarrow> Inr path)"
      from R res have "r' = Inl (PNGFormatError r)" by (cases r') simp_all
      with wp have "PNGFormatError r = StructError" by (auto dest: write_png_error)
      then show ?thesis by simp
    qed
  qed
  have 2: "w' \<noteq> w \<longrightarrow> (\<exists>f res. files w src = Some f \<and> decode_and_reencode zl f = Inr res)"
    using c by auto
  show ?thesis using 1 2 by (simp add: fl)
qed

theorem format_error_opens_no_output_witness:
  "flatten_png_alpha_to_white zlib_recorded (world_of png_truncated) ''in.png'' None False
     = (Inl (PNGFormatError EOFChunkData), world_of png_truncated)"
proof -
  have "snd (flatten_png_alpha_to_white zlib_recorded (world_of png_truncated) ''in.png'' None False)
          = world_of png_truncated"
    using format_error_opens_no_output
            [of zlib_recorded "world_of png_truncated" "''in.png''" None False EOFChunkData]
          flatten_png_truncated
    by blast
  with flatten_png_truncated show ?thesis by (simp add: prod_eq_iff)
qed

section \<open>Layout of the output stream\<close>

lemma decode_and_reencode_Inr:
  assumes "decode_and_reencode zl f = Inr (width, height, ancillary, compressed)"
  shows "\<exists>bit_depth color_type f2 col out_raw.
           read_header f = Inr ((width, height, bit_depth, color_type), f2)
         \<and> read_chunks f2 \<lparr>idat_parts = [], ancillary_chunks = [], plte = None, trns = None\<rparr>
             = Inr col
         \<and> ancillary = ancillary_chunks col
         \<and> compressed = compress zl out_raw 9"
  using assms unfolding decode_and_reencode_def Let_def
  by (auto simp: and_then_eq_Inr split: if_splits option.splits prod.splits)

lemma read_chunk_input_chunk:
  assumes "well_formed_chunk (t, d, crc)"
  shows "read_chunk (input_chunk_bytes (t, d, crc) @ tail) = Inr ((t, d), tail)"
proof -
  from assms have t: "length t = 4" and d: "length d < 2 ^ 32" and c: "length crc = 4"
    by (simp_all add: well_formed_chunk_def)
  from unpack_pack_u32 [OF d] have "unpack_u32 (be32 (length d)) = Inr (length d)"
    by (auto dest: pack_u32_be32)
  from read_chunk_frame [OF this t c, of tail] show ?thesis
    by (simp add: input_chunk_bytes_def)
qed

lemma read_chunks_absorbs:
  assumes "\<forall>c \<in> set cs. well_formed_chunk c \<and> fst c \<noteq> IEND"
  shows "read_chunks (concat (map input_chunk_bytes cs) @ tail) acc
         = read_chunks tail (foldl absorb_chunk acc cs)"
  using assms
proof (induction cs arbitrary: acc)
  case Nil
  then show ?case by simp
next
  case (Cons c cs)
  obtain t d crc where c: "c = (t, d, crc)" by (cases c)
  from Cons.prems c have wf: "well_formed_chunk (t, d, crc)" and ne: "t \<noteq> IEND" by simp_all
  have rc: "read_chunk (input_chunk_bytes (t, d, crc) @ concat (map input_chunk_bytes cs) @ tail)
        = Inr ((t, d), concat (map input_chunk_bytes cs) @ tail)"
    using wf by (rule read_chunk_input_chunk)
  have "read_chunks (concat (map input_chunk_bytes (c # cs)) @ tail) acc
        = read_chunks (concat (map input_chunk_bytes cs) @ tail) (absorb_chunk acc c)"
    unfolding c
    by (subst read_chunks.simps) (simp add: rc ne absorb_chunk_def)
  also have "\<dots> = read_chunks tail (foldl absorb_chunk (absorb_chunk acc c) cs)"
    using Cons.prems by (intro Cons.IH) simp
  finally show ?case by simp
qed

lemma read_chunks_stops:
  assumes "tail = [] \<or> (\<exists>d crc rest. well_formed_chunk (IEND, d, crc)
                            \<and> tail = input_chunk_bytes (IEND, d, crc) @ rest)"
  shows "read_chunks tail acc = Inr acc"
  using assms
proof
  assume "tail = []"
  then show ?thesis by (subst read_chunks.simps) (simp add: read_chunk_cases)
next
  assume "\<exists>d crc rest. well_formed_chunk (IEND, d, crc) \<and> tail = input_chunk_bytes (IEND, d, crc) @ rest"
  then obtain d crc rest where wf: "well_formed_chunk (IEND, d, crc)"
    and tail: "tail = input_chunk_bytes (IEND, d, crc) @ rest" by blast
  have ne: "IEND \<noteq> IDAT" "IEND \<noteq> PLTE" "IEND \<noteq> tRNS"
    by (simp_all add: IEND_def IDAT_def PLTE_def tRNS_def)
  show ?thesis unfolding tail
    by (subst read_chunks.simps) (simp add: read_chunk_input_chunk [OF wf] ne)
qed

lemma ancillary_chunks_foldl_absorb:
  "ancillary_chunks (foldl absorb_chunk acc cs)
   = ancillary_chunks acc @ filter (\<lambda>c. fst c \<notin> {IDAT, PLTE, tRNS}) (map type_and_data cs)"
  by (induction cs arbitrary: acc) (auto simp: absorb_chunk_def type_and_data_def)

lemma whitelisted_not_collected:
  "whitelisted c \<Longrightarrow> fst c \<notin> {IDAT, PLTE, tRNS}"
  by (auto simp: whitelisted_def sRGB_def gAMA_def cHRM_def IDAT_def PLTE_def tRNS_def)

lemma filter_whitelisted_collected:
  "filter whitelisted (filter (\<lambda>c. fst c \<notin> {IDAT, PLTE, tRNS}) xs) = filter whitelisted xs"
  using whitelisted_not_collected by (induction xs) auto

lemma read_chunks_well_formed:
  assumes "\<forall>c \<in> set cs. well_formed_chunk c \<and> fst c \<noteq> IEND"
    and "tail = [] \<or> (\<exists>d crc rest. well_formed_chunk (IEND, d, crc)
                            \<and> tail = input_chunk_bytes (IEND, d, crc) @ rest)"
  shows "\<exists>col. read_chunks (concat (map input_chunk_bytes cs) @ tail)
                  \<lparr>idat_parts = [], ancillary_chunks = [], plte = None, trns = None\<rparr> = Inr col
           \<and> filter whitelisted (ancillary_chunks col) = filter whitelisted (map type_and_data cs)"
proof -
  let ?acc = "\<lparr>idat_parts = [], ancillary_chunks = [], plte = None, trns = None\<rparr>"
  have 1: "read_chunks (concat (map input_chunk_bytes cs) @ tail) ?acc
           = Inr (foldl absorb_chunk ?acc cs)"
    using read_chunks_absorbs [OF assms(1), of tail] read_chunks_stops [OF assms(2)] by simp
  have 2: "filter whitelisted (ancillary_chunks (foldl absorb_chunk ?acc cs))
           = filter whitelisted (map type_and_data cs)"
    by (simp only: ancillary_chunks_foldl_absorb collected.simps append_Nil
          filter_whitelisted_collected)
  show ?thesis using 1 2 by blast
qed


text \<open>
  C8: when the run succeeds, the input began with the signature and a header chunk of
  bit depth 8 and compression, filter and interlace 0, and the output file holds exactly
  the signature, a header chunk with the input's 8 bytes of width and height followed by
  bit depth 8, colour type 2 and compression, filter and interlace 0, then the chunks
  of the pass-through list whose type is \<^verbatim>\<open>sRGB\<close>, \<^verbatim>\<open>gAMA\<close> or \<^verbatim>\<open>cHRM\<close>, in the order the
  chunk loop collected them, then one \<^verbatim>\<open>IDAT\<close> chunk holding the output of the
  compressor at level 9, then an empty \<^verbatim>\<open>IEND\<close> chunk. On an input whose chunks after
  the header are well formed and end with the stream or with \<^verbatim>\<open>IEND\<close>, the whitelisted
  chunks of the pass-through list are the whitelisted chunks of the input, in order:
  every other input chunk is dropped.
\<close>

theorem output_stream_layout:
  "(flatten_png_alpha_to_white zl w src dst ov = (Inr path, w') \<longrightarrow>
      (\<exists>f col out_raw.
           files w src = Some f
         \<and> take 8 f = PNG_SIGNATURE \<and> take 4 (drop 12 f) = IHDR
         \<and> unat (f ! 24) = 8 \<and> unat (f ! 26) = 0 \<and> unat (f ! 27) = 0 \<and> unat (f ! 28) = 0
         \<and> read_chunks (drop 33 f)
              \<lparr>idat_parts = [], ancillary_chunks = [], plte = None, trns = None\<rparr> = Inr col
         \<and> files w' path
             = Some (PNG_SIGNATURE
                     @ chunk_bytes zl (IHDR, take 8 (drop 16 f) @ [8, 2, 0, 0, 0])
                     @ concat (map (chunk_bytes zl) (filter whitelisted (ancillary_chunks col)))
                     @ chunk_bytes zl (IDAT, compress zl out_raw 9)
                     @ chunk_bytes zl (IEND, []))))
   \<and> ((\<forall>c \<in> set cs. well_formed_chunk c \<and> fst c \<noteq> IEND)
        \<and> (tail = [] \<or> (\<exists>d crc rest. well_formed_chunk (IEND, d, crc)
                            \<and> tail = input_chunk_bytes (IEND, d, crc) @ rest))
      \<longrightarrow> (\<exists>col. read_chunks (concat (map input_chunk_bytes cs) @ tail)
                    \<lparr>idat_parts = [], ancillary_chunks = [], plte = None, trns = None\<rparr> = Inr col
              \<and> filter whitelisted (ancillary_chunks col)
                  = filter whitelisted (map type_and_data cs)))"
proof (rule conjI)
  show "flatten_png_alpha_to_white zl w src dst ov = (Inr path, w') \<longrightarrow>
      (\<exists>f col out_raw.
           files w src = Some f
         \<and> take 8 f = PNG_SIGNATURE \<and> take 4 (drop 12 f) = IHDR
         \<and> unat (f ! 24) = 8 \<and> unat (f ! 26) = 0 \<and> unat (f ! 27) = 0 \<and> unat (f ! 28) = 0
         \<and> read_chunks (drop 33 f)
              \<lparr>idat_parts = [], ancillary_chunks = [], plte = None, trns = None\<rparr> = Inr col
         \<and> files w' path
             = Some (PNG_SIGNATURE
                     @ chunk_bytes zl (IHDR, take 8 (drop 16 f) @ [8, 2, 0, 0, 0])
                     @ concat (map (chunk_bytes zl) (filter whitelisted (ancillary_chunks col)))
                     @ chunk_bytes zl (IDAT, compress zl out_raw 9)
                     @ chunk_bytes zl (IEND, [])))"
  proof
    assume fl: "flatten_png_alpha_to_white zl w src dst ov = (Inr path, w')"
    from flatten_cases [OF fl] obtain f width height ancillary compressed r out p where
      f: "files w src = Some f"
      and dec: "decode_and_reencode zl f = Inr (width, height, ancillary, compressed)"
      and wp: "write_png zl width height ancillary compressed = (r, out)"
      and w': "w' = w\<lparr>files := (files w)(p \<mapsto> out),
                       opened_for_writing := opened_for_writing w @ [p]\<rparr>"
      and res: "Inr path = (case r of Inl e \<Rightarrow> Inl e | Inr u \<Rightarrow> Inr p)"
      by auto
    from res obtain u where r: "r = Inr u" and p: "p = path" by (cases r) simp_all
    from decode_and_reencode_Inr [OF dec] obtain bit_depth color_type f2 col out_raw where
      rh: "read_header f = Inr ((width, height, bit_depth, color_type), f2)"
      and rcs: "read_chunks f2 \<lparr>idat_parts = [], ancillary_chunks = [], plte = None, trns = None\<rparr>
             = Inr col"
      and anc: "ancillary = ancillary_chunks col"
      and comp: "compressed = compress zl out_raw 9" by blast
    note h = read_header_Inr [OF rh]
    have wh: "be32 width @ be32 height = take 8 (drop 16 f)"
    proof -
      have "take 8 (drop 16 f) = take 4 (drop 16 f) @ take 4 (drop (16 + 4) f)"
        by (metis take_add drop_drop add.commute numeral_Bit0)
      then show ?thesis using h by simp
    qed
    have out: "out = PNG_SIGNATURE
           @ chunk_bytes zl (IHDR, take 8 (drop 16 f) @ [8, 2, 0, 0, 0])
           @ concat (map (chunk_bytes zl) (filter whitelisted (ancillary_chunks col)))
           @ chunk_bytes zl (IDAT, compress zl out_raw 9)
           @ chunk_bytes zl (IEND, [])"
      using write_png_Inr [OF wp [unfolded r]] anc comp
      by (simp add: wh [symmetric])
    have "files w' path = Some out" by (simp add: w' p)
    with f h rcs out show "\<exists>f col out_raw.
           files w src = Some f
         \<and> take 8 f = PNG_SIGNATURE \<and> take 4 (drop 12 f) = IHDR
         \<and> unat (f ! 24) = 8 \<and> unat (f ! 26) = 0 \<and> unat (f ! 27) = 0 \<and> unat (f ! 28) = 0
         \<and> read_chunks (drop 33 f)
              \<lparr>idat_parts = [], ancillary_chunks = [], plte = None, trns = None\<rparr> = Inr col
         \<and> files w' path
             = Some (PNG_SIGNATURE
                     @ chunk_bytes zl (IHDR, take 8 (drop 16 f) @ [8, 2, 0, 0, 0])
                     @ concat (map (chunk_bytes zl) (filter whitelisted (ancillary_chunks col)))
                     @ chunk_bytes zl (IDAT, compress zl out_raw 9)
                     @ chunk_bytes zl (IEND, []))"
      by blast
  qed
next
  show "(\<forall>c \<in> set cs. well_formed_chunk c \<and> fst c \<noteq> IEND)
        \<and> (tail = [] \<or> (\<exists>d crc rest. well_formed_chunk (IEND, d, crc)
                            \<and> tail = input_chunk_bytes (IEND, d, crc) @ rest))
      \<longrightarrow> (\<exists>col. read_chunks (concat (map input_chunk_bytes cs) @ tail)
                    \<lparr>idat_parts = [], ancillary_chunks = [], plte = None, trns = None\<rparr> = Inr col
              \<and> filter whitelisted (ancillary_chunks col)
                  = filter whitelisted (map type_and_data cs))"
    using read_chunks_well_formed by blast
qed

theorem output_stream_layout_witness:
  "(\<exists>out_raw.
      files (snd (flatten_png_alpha_to_white zlib_recorded (world_of png_rgba) ''in.png'' None False))
        ''in.png.flattened.png''
      = Some (PNG_SIGNATURE
              @ chunk_bytes zlib_recorded (IHDR, [0, 0, 0, 1, 0, 0, 0, 1, 8, 2, 0, 0, 0])
              @ chunk_bytes zlib_recorded (gAMA, [0, 0, 177, 143])
              @ chunk_bytes zlib_recorded (IDAT, compress zlib_recorded out_raw 9)
              @ chunk_bytes zlib_recorded (IEND, [])))
   \<and> (\<exists>col. read_chunks (drop 33 png_rgba)
               \<lparr>idat_parts = [], ancillary_chunks = [], plte = None, trns = None\<rparr> = Inr col
          \<and> filter whitelisted (ancillary_chunks col) = [(gAMA, [0, 0, 177, 143])])"
proof (rule conjI)
  let ?w' = "\<lparr>files = [''in.png'' \<mapsto> png_rgba, ''in.png.flattened.png'' \<mapsto> png_rgba_flattened],
             opened_for_writing = [''in.png.flattened.png'']\<rparr>"
  let ?acc = "\<lparr>idat_parts = [], ancillary_chunks = [], plte = None, trns = None\<rparr>"
  note fl = flatten_png_rgba
  from output_stream_layout [THEN conjunct1, rule_format, OF fl] obtain f col out_raw where
    f: "files (world_of png_rgba) ''in.png'' = Some f"
    and rc: "read_chunks (drop 33 f) ?acc = Inr col"
    and out: "files ?w' ''in.png.flattened.png''
       = Some (PNG_SIGNATURE
               @ chunk_bytes zlib_recorded (IHDR, take 8 (drop 16 f) @ [8, 2, 0, 0, 0])
               @ concat (map (chunk_bytes zlib_recorded) (filter whitelisted (ancillary_chunks col)))
               @ chunk_bytes zlib_recorded (IDAT, compress zlib_recorded out_raw 9)
               @ chunk_bytes zlib_recorded (IEND, []))"
    by blast
  from f have f': "f = png_rgba" by (simp add: world_of_def)
  have hd: "take 8 (drop 16 f) = [0, 0, 0, 1, 0, 0, 0, 1]"
    by (simp add: f' png_rgba_def)
  have "col = \<lparr>idat_parts = [[120, 218, 99, 56, 145, 98, 212, 0, 0, 5, 53, 1, 223]],
          ancillary_chunks = [([103, 65, 77, 65], [0, 0, 177, 143]),
                              ([116, 69, 88, 116], [67, 111, 109, 109, 101, 110, 116, 0, 104, 105])],
          plte = None, trns = None\<rparr>"
    using rc by (simp add: f' png_rgba_def read_chunks_png_rgba)
  then have anc: "filter whitelisted (ancillary_chunks col) = [(gAMA, [0, 0, 177, 143])]"
    by (simp add: whitelisted_def sRGB_def gAMA_def cHRM_def)
  show "\<exists>out_raw.
      files (snd (flatten_png_alpha_to_white zlib_recorded (world_of png_rgba) ''in.png'' None False))
        ''in.png.flattened.png''
      = Some (PNG_SIGNATURE
              @ chunk_bytes zlib_recorded (IHDR, [0, 0, 0, 1, 0, 0, 0, 1, 8, 2, 0, 0, 0])
              @ chunk_bytes zlib_recorded (gAMA, [0, 0, 177, 143])
              @ chunk_bytes zlib_recorded (IDAT, compress zlib_recorded out_raw 9)
              @ chunk_bytes zlib_recorded (IEND, []))"
    using out unfolding fl hd anc by (intro exI [of _ out_raw]) simp
next
  let ?cs = "[(gAMA, [0, 0, 177, 143], [11, 252, 97, 5]),
              ([116, 69, 88, 116], [67, 111, 109, 109, 101, 110, 116, 0, 104, 105], [162, 162, 88, 102]),
              (IDAT, [120, 218, 99, 56, 145, 98, 212, 0, 0, 5, 53, 1, 223], [172, 60, 241, 203])]"
  let ?tail = "input_chunk_bytes (IEND, [], [174, 66, 96, 130]) @ []"
  have wf: "\<forall>c \<in> set ?cs. well_formed_chunk c \<and> fst c \<noteq> IEND"
    by (simp add: well_formed_chunk_def gAMA_def IDAT_def IEND_def)
  have tl: "?tail = [] \<or> (\<exists>d crc rest. well_formed_chunk (IEND, d, crc)
                            \<and> ?tail = input_chunk_bytes (IEND, d, crc) @ rest)"
    by (intro disjI2 exI [of _ "[]"] exI [of _ "[174, 66, 96, 130]"])
       (simp add: well_formed_chunk_def IEND_def)
  have eq: "concat (map input_chunk_bytes ?cs) @ ?tail = drop 33 png_rgba"
    by (simp add: input_chunk_bytes_def be32_def png_rgba_def gAMA_def IDAT_def IEND_def)
  have td: "filter whitelisted (map type_and_data ?cs) = [(gAMA, [0, 0, 177, 143])]"
    by (simp add: type_and_data_def whitelisted_def sRGB_def gAMA_def cHRM_def IDAT_def)
  from output_stream_layout [THEN conjunct2, rule_format, of ?cs ?tail] wf tl
  show "\<exists>col. read_chunks (drop 33 png_rgba)
               \<lparr>idat_parts = [], ancillary_chunks = [], plte = None, trns = None\<rparr> = Inr col
          \<and> filter whitelisted (ancillary_chunks col) = [(gAMA, [0, 0, 177, 143])]"
    unfolding eq td by blast
qed

end
